theory Spec2Isabelle
  imports Main "HOL-Library.Sublist"
begin

section \<open>Strings\<close>

text \<open>
  A JavaScript string is a sequence of UTF-16 code units. The model uses \<open>string\<close>; a
  \<open>char\<close> stands for a code unit below 256 (Latin-1), which covers every character the
  tag syntax and the extension table mention.
\<close>

definition dquote :: char where
  "dquote = CHR 0x22"

definition squote :: char where
  "squote = CHR 0x27"

definition newline :: char where
  "newline = CHR 0x0A"

text \<open>The regular-expression class \<^verbatim>\<open>\s\<close> restricted to code units below 256:
  tab, line feed, vertical tab, form feed, carriage return, space and no-break space.\<close>

definition isSpace :: "char \<Rightarrow> bool" where
  "isSpace c = (c \<in> set [CHR 0x09, CHR 0x0A, CHR 0x0B, CHR 0x0C, CHR 0x0D, CHR 0x20, CHR 0xA0])"

text \<open>The class \<^verbatim>\<open>["']\<close>.\<close>

definition isQuote :: "char \<Rightarrow> bool" where
  "isQuote c = (c = dquote \<or> c = squote)"

text \<open>Matching a literal piece of the pattern at the front of the input.\<close>

definition stripPrefix :: "string \<Rightarrow> string \<Rightarrow> string option" where
  "stripPrefix p s = (if prefix p s then Some (drop (length p) s) else None)"

text \<open>\<^verbatim>\<open>String.prototype.split\<close> with a one-character separator.\<close>

fun splitOn :: "char \<Rightarrow> string \<Rightarrow> string list" where
  "splitOn sep [] = [[]]"
| "splitOn sep (c # cs) =
     (if c = sep then [] # splitOn sep cs
      else (case splitOn sep cs of
              [] \<Rightarrow> [[c]]
            | s # ss \<Rightarrow> (c # s) # ss))"

text \<open>\<^verbatim>\<open>String.prototype.toLowerCase\<close> on code units below 256: the ASCII capitals
  and the Latin-1 capitals (U+00C0 to U+00DE without the multiplication sign) move up by 32.\<close>

definition toLowerChar :: "char \<Rightarrow> char" where
  "toLowerChar c =
     (let n = (of_char c :: nat)
      in if (65 \<le> n \<and> n \<le> 90) \<or> (192 \<le> n \<and> n \<le> 222 \<and> n \<noteq> 215)
         then char_of (n + 32) else c)"

definition toLowerCase :: "string \<Rightarrow> string" where
  "toLowerCase s = map toLowerChar s"

section \<open>The artifact extractor (src/utils/fileParser.ts)\<close>

record ProjectFile =
  path :: string
  content :: string
  language :: string

text \<open>
  The pattern is
  \<^verbatim>\<open>/<file\s+path=["']([^"']+)["']\s*>([\s\S]*?)<\/file>/g\<close>.
  \<open>lazyUntil lit\<close> is a lazy \<^verbatim>\<open>([\s\S]*?)\<close> followed by the literal \<open>lit\<close>:
  the lazy star tries the literal at every position from the left and stops at the first
  one. It returns the captured text and the text after the literal.
\<close>

fun lazyUntil :: "string \<Rightarrow> string \<Rightarrow> (string \<times> string) option" where
  "lazyUntil lit [] =
     (case stripPrefix lit [] of
        Some rest \<Rightarrow> Some ([], rest)
      | None \<Rightarrow> None)"
| "lazyUntil lit (c # cs) =
     (case stripPrefix lit (c # cs) of
        Some rest \<Rightarrow> Some ([], rest)
      | None \<Rightarrow> (case lazyUntil lit cs of
                   None \<Rightarrow> None
                 | Some (body, rest) \<Rightarrow> Some (c # body, rest)))"

definition closeTag :: string where
  "closeTag = ''</file>''"

text \<open>
  One attempt of the pattern at the front of the input. Each greedy class is followed by
  something outside the class (\<^verbatim>\<open>\s+\<close> by \<open>p\<close>, \<^verbatim>\<open>[^"']+\<close> by a quote,
  \<^verbatim>\<open>\s*\<close> by \<open>>\<close>), so giving back characters can never help and the longest run is
  the only candidate. The result is capture 1, capture 2 and the text after the match.
\<close>

definition matchFileRegex :: "string \<Rightarrow> (string \<times> string \<times> string) option" where
  "matchFileRegex s =
     (case stripPrefix ''<file'' s of
        None \<Rightarrow> None
      | Some s1 \<Rightarrow>
          if takeWhile isSpace s1 = [] then None
          else (case stripPrefix ''path='' (dropWhile isSpace s1) of
                  None \<Rightarrow> None
                | Some s2 \<Rightarrow>
                    (case s2 of
                       [] \<Rightarrow> None
                     | q1 # s3 \<Rightarrow>
                         if \<not> isQuote q1 then None
                         else if takeWhile (\<lambda>c. \<not> isQuote c) s3 = [] then None
                         else (case dropWhile (\<lambda>c. \<not> isQuote c) s3 of
                                 [] \<Rightarrow> None
                               | q2 # s4 \<Rightarrow>
                                   (case stripPrefix ''>'' (dropWhile isSpace s4) of
                                      None \<Rightarrow> None
                                    | Some s5 \<Rightarrow>
                                        (case lazyUntil closeTag s5 of
                                           None \<Rightarrow> None
                                         | Some (body, rest) \<Rightarrow>
                                             Some (takeWhile (\<lambda>c. \<not> isQuote c) s3, body, rest)))))))"

text \<open>The search of \<^verbatim>\<open>exec\<close>: the first start position at which the pattern matches.\<close>

fun searchFrom :: "string \<Rightarrow> (string \<times> string \<times> string) option" where
  "searchFrom [] = None"
| "searchFrom (c # cs) =
     (case matchFileRegex (c # cs) of
        Some m \<Rightarrow> Some m
      | None \<Rightarrow> searchFrom cs)"

text \<open>
  \<^verbatim>\<open>fileRegex.exec(text)\<close> for the global pattern, with the \<^verbatim>\<open>lastIndex\<close> of the
  regex object as explicit state: the search starts at \<open>lastIndex\<close>; a match moves
  \<open>lastIndex\<close> to its end, a failure resets it to 0 and returns null.
\<close>

definition fileRegexExec :: "string \<Rightarrow> nat \<Rightarrow> (string \<times> string) option \<times> nat" where
  "fileRegexExec text lastIndex =
     (case searchFrom (drop lastIndex text) of
        None \<Rightarrow> (None, 0)
      | Some (p, body, rest) \<Rightarrow> (Some (p, body), length text - length rest))"

text \<open>The extension table of lines 22 to 28.\<close>

definition languageOf :: "string \<Rightarrow> string" where
  "languageOf p =
     (let popped = toLowerCase (last (splitOn CHR ''.'' p));
          ext = (if popped = [] then ''text'' else popped)
      in if ext \<in> set [''js'', ''jsx'', ''ts'', ''tsx''] then ''javascript''
         else if ext \<in> set [''html''] then ''html''
         else if ext \<in> set [''css''] then ''css''
         else if ext \<in> set [''json''] then ''json''
         else if ext \<in> set [''py''] then ''python''
         else ''text'')"

text \<open>The body of the while loop: one match becomes one record.\<close>

definition stripLeadingNewline :: "string \<Rightarrow> string" where
  "stripLeadingNewline body =
     (case body of
        [] \<Rightarrow> []
      | c # cs \<Rightarrow> if c = newline then cs else c # cs)"

definition mkFile :: "string \<Rightarrow> string \<Rightarrow> ProjectFile" where
  "mkFile p body =
     \<lparr>path = p, content = stripLeadingNewline body, language = languageOf p\<rparr>"

section \<open>Facts about the pattern matcher\<close>

lemma stripPrefix_Some_iff: "stripPrefix p s = Some r \<longleftrightarrow> s = p @ r"
  by (auto simp: stripPrefix_def prefix_def)

lemma stripPrefix_None_iff: "stripPrefix p s = None \<longleftrightarrow> \<not> prefix p s"
  by (simp add: stripPrefix_def)

lemma stripPrefix_append: "stripPrefix p (p @ r) = Some r"
  by (simp add: stripPrefix_def)

lemma lazyUntil_prefix: "prefix lit s \<Longrightarrow> lazyUntil lit s = Some ([], drop (length lit) s)"
  by (cases s) (simp_all add: stripPrefix_def)

lemma lazyUntil_not_prefix:
  "\<not> prefix lit (c # cs) \<Longrightarrow>
   lazyUntil lit (c # cs) = (case lazyUntil lit cs of None \<Rightarrow> None | Some (b, r) \<Rightarrow> Some (c # b, r))"
  by (simp add: stripPrefix_def)

declare lazyUntil.simps [simp del]

lemma lazyUntil_None_iff: "lazyUntil lit s = None \<longleftrightarrow> \<not> sublist lit s"
proof (induction s)
  case Nil
  then show ?case by (auto simp: lazyUntil.simps stripPrefix_def)
next
  case (Cons c cs)
  show ?case
  proof (cases "prefix lit (c # cs)")
    case True
    then have "sublist lit (c # cs)" by (rule prefix_imp_sublist)
    with True show ?thesis by (simp add: lazyUntil_prefix)
  next
    case False
    have "sublist lit (c # cs) \<longleftrightarrow> sublist lit cs"
      using False by (simp add: sublist_Cons_right)
    with False Cons show ?thesis
      by (auto simp: lazyUntil_not_prefix split: option.splits)
  qed
qed

lemma lazyUntil_Some_D: "lazyUntil lit s = Some (b, r) \<Longrightarrow> s = b @ lit @ r"
proof (induction s arbitrary: b)
  case Nil
  then show ?case by (auto simp: lazyUntil.simps stripPrefix_Some_iff split: option.splits)
next
  case (Cons c cs)
  then show ?case
    by (auto simp: lazyUntil.simps stripPrefix_Some_iff split: option.splits)
qed

lemma lazyUntil_first:
  "lazyUntil lit s = Some (b, r) \<Longrightarrow> s = b' @ lit @ r' \<Longrightarrow> length b \<le> length b'"
proof (induction s arbitrary: b b')
  case Nil
  then show ?case by (auto simp: lazyUntil.simps stripPrefix_Some_iff split: option.splits)
next
  case (Cons c cs)
  show ?case
  proof (cases "prefix lit (c # cs)")
    case True
    with Cons.prems show ?thesis by (simp add: lazyUntil_prefix)
  next
    case False
    with Cons.prems(1) obtain b0 where b0: "lazyUntil lit cs = Some (b0, r)" "b = c # b0"
      by (auto simp: lazyUntil_not_prefix split: option.splits)
    from False Cons.prems(2) have "b' \<noteq> []" by (auto simp: prefix_def)
    then obtain b1 where b1: "b' = c # b1" "cs = b1 @ lit @ r'"
      using Cons.prems(2) by (cases b') auto
    from Cons.IH[OF b0(1) b1(2)] b0 b1 show ?thesis by simp
  qed
qed

lemma lazyUntil_intro:
  assumes "\<And>k. k < length b \<Longrightarrow> \<not> prefix lit (drop k (b @ lit @ r))"
  shows "lazyUntil lit (b @ lit @ r) = Some (b, r)"
  using assms
proof (induction b)
  case Nil
  show ?case by (simp add: lazyUntil_prefix)
next
  case (Cons c b)
  from Cons.prems[of 0] have "\<not> prefix lit (c # b @ lit @ r)" by simp
  moreover have "lazyUntil lit (b @ lit @ r) = Some (b, r)"
  proof (rule Cons.IH)
    fix k assume "k < length b"
    then show "\<not> prefix lit (drop k (b @ lit @ r))" using Cons.prems[of "Suc k"] by simp
  qed
  ultimately show ?case by (simp add: lazyUntil_not_prefix)
qed

text \<open>A literal that starts with a character occurring nowhere else in it has no border.\<close>

lemma prefix_append_cases:
  assumes "prefix lit (u @ v)"
  shows "prefix lit u \<or> (\<exists>w. w \<noteq> [] \<and> lit = u @ w \<and> prefix w v)"
  using assms by (auto simp: prefix_append)

lemma hd_unique_no_border:
  assumes lit: "lit = a # t" "a \<notin> set t"
    and p: "prefix lit (u @ a # v)"
  shows "u = [] \<or> prefix lit u"
proof (cases u)
  case Nil
  then show ?thesis by simp
next
  case (Cons x u')
  from prefix_append_cases[OF p] show ?thesis
  proof
    assume "prefix lit u" then show ?thesis by simp
  next
    assume "\<exists>w. w \<noteq> [] \<and> lit = u @ w \<and> prefix w (a # v)"
    then obtain w where w: "w \<noteq> []" "lit = u @ w" "prefix w (a # v)" by blast
    then have "hd w = a" by (cases w) auto
    with w(1) have "a \<in> set w" by (cases w) auto
    with w(2) Cons lit have "a \<in> set t" by auto
    with lit show ?thesis by simp
  qed
qed

lemma closeTag_no_border: "prefix closeTag (u @ closeTag @ r) \<Longrightarrow> u = [] \<or> prefix closeTag u"
  using hd_unique_no_border[of closeTag "CHR ''<''" "''/file>''" u "''/file>'' @ r"]
  by (simp add: closeTag_def)

lemma lazyUntil_closeTag:
  assumes "\<not> sublist closeTag b"
  shows "lazyUntil closeTag (b @ closeTag @ r) = Some (b, r)"
proof (rule lazyUntil_intro)
  fix k assume k: "k < length b"
  show "\<not> prefix closeTag (drop k (b @ closeTag @ r))"
  proof
    assume "prefix closeTag (drop k (b @ closeTag @ r))"
    with k have "prefix closeTag (drop k b @ closeTag @ r)" by simp
    from closeTag_no_border[OF this] k have "prefix closeTag (drop k b)" by simp
    then have "sublist closeTag (drop k b)" by (rule prefix_imp_sublist)
    then have "sublist closeTag b" using sublist_drop sublist_order.order.trans by blast
    with assms show False by simp
  qed
qed

lemma lazyUntil_closeTag_D:
  assumes "lazyUntil closeTag s = Some (b, r)"
  shows "s = b @ closeTag @ r \<and> \<not> sublist closeTag b"
proof
  show s: "s = b @ closeTag @ r" using assms by (rule lazyUntil_Some_D)
  show "\<not> sublist closeTag b"
  proof
    assume "sublist closeTag b"
    then obtain u v where "b = u @ closeTag @ v" by (auto simp: sublist_def)
    with s have "s = u @ closeTag @ (v @ closeTag @ r)" by simp
    from lazyUntil_first[OF assms this] \<open>b = u @ closeTag @ v\<close> show False
      by (simp add: closeTag_def)
  qed
qed

text \<open>The shape of a complete opening tag.\<close>

definition openTag :: "string \<Rightarrow> char \<Rightarrow> string \<Rightarrow> char \<Rightarrow> string \<Rightarrow> string" where
  "openTag ws1 q1 p q2 ws2 = ''<file'' @ ws1 @ ''path='' @ [q1] @ p @ [q2] @ ws2 @ ''>''"

definition validOpen :: "string \<Rightarrow> char \<Rightarrow> string \<Rightarrow> char \<Rightarrow> string \<Rightarrow> bool" where
  "validOpen ws1 q1 p q2 ws2 \<longleftrightarrow>
     ws1 \<noteq> [] \<and> list_all isSpace ws1 \<and> isQuote q1 \<and> p \<noteq> [] \<and> list_all (\<lambda>c. \<not> isQuote c) p \<and>
     isQuote q2 \<and> list_all isSpace ws2"

lemma takeWhile_run: "list_all P xs \<Longrightarrow> \<not> P y \<Longrightarrow> takeWhile P (xs @ y # ys) = xs"
  by (induction xs) auto

lemma dropWhile_run: "list_all P xs \<Longrightarrow> \<not> P y \<Longrightarrow> dropWhile P (xs @ y # ys) = y # ys"
  by (induction xs) auto

lemma matchFileRegex_intro:
  assumes v: "validOpen ws1 q1 p q2 ws2" and b: "\<not> sublist closeTag body"
  shows "matchFileRegex (openTag ws1 q1 p q2 ws2 @ body @ closeTag @ rest) = Some (p, body, rest)"
proof -
  let ?s5 = "body @ closeTag @ rest"
  let ?s4 = "ws2 @ CHR ''>'' # ?s5"
  let ?s3 = "p @ q2 # ?s4"
  let ?s2 = "q1 # ?s3"
  let ?s1 = "ws1 @ CHR ''p'' # ''ath='' @ ?s2"
  have s: "openTag ws1 q1 p q2 ws2 @ body @ closeTag @ rest = ''<file'' @ ?s1"
    by (simp add: openTag_def)
  have 1: "stripPrefix ''<file'' (''<file'' @ ?s1) = Some ?s1" by (rule stripPrefix_append)
  have np: "\<not> isSpace CHR ''p''" "\<not> isSpace CHR ''>''" by (simp_all add: isSpace_def)
  have 2: "takeWhile isSpace ?s1 = ws1" "dropWhile isSpace ?s1 = ''path='' @ ?s2"
    using v np by (simp_all add: validOpen_def takeWhile_run dropWhile_run)
  have 3: "stripPrefix ''path='' (''path='' @ ?s2) = Some ?s2" by (rule stripPrefix_append)
  have 4: "takeWhile (\<lambda>c. \<not> isQuote c) ?s3 = p" "dropWhile (\<lambda>c. \<not> isQuote c) ?s3 = q2 # ?s4"
    using v by (simp_all add: validOpen_def takeWhile_run dropWhile_run)
  have 5: "dropWhile isSpace ?s4 = ''>'' @ ?s5"
    using v np by (simp add: validOpen_def dropWhile_run)
  have 6: "stripPrefix ''>'' (''>'' @ ?s5) = Some ?s5" by (rule stripPrefix_append)
  have 7: "lazyUntil closeTag ?s5 = Some (body, rest)" using b by (rule lazyUntil_closeTag)
  show ?thesis
    unfolding s matchFileRegex_def 1 option.case 2 3 list.case 4 5 6 7
    using v by (simp add: validOpen_def)
qed

lemma takeWhile_dropWhile_all: "list_all P (takeWhile P xs)"
  by (induction xs) auto

lemma matchFileRegex_D:
  assumes "matchFileRegex s = Some (p, body, rest)"
  shows "\<exists>ws1 q1 q2 ws2. validOpen ws1 q1 p q2 ws2 \<and> \<not> sublist closeTag body \<and>
           s = openTag ws1 q1 p q2 ws2 @ body @ closeTag @ rest"
proof -
  from assms obtain s1 s2 q1 s3 q2 s4 s5 where
    a: "stripPrefix ''<file'' s = Some s1"
    and w: "takeWhile isSpace s1 \<noteq> []"
    and b: "stripPrefix ''path='' (dropWhile isSpace s1) = Some s2"
    and c: "s2 = q1 # s3" "isQuote q1"
    and p: "takeWhile (\<lambda>c. \<not> isQuote c) s3 = p" "p \<noteq> []"
    and d: "dropWhile (\<lambda>c. \<not> isQuote c) s3 = q2 # s4"
    and e: "stripPrefix ''>'' (dropWhile isSpace s4) = Some s5"
    and f: "lazyUntil closeTag s5 = Some (body, rest)"
    unfolding matchFileRegex_def
    by (auto split: option.splits list.splits if_splits prod.splits)
  let ?ws1 = "takeWhile isSpace s1" and ?ws2 = "takeWhile isSpace s4"
  have q2: "isQuote q2" using d hd_dropWhile[of "\<lambda>c. \<not> isQuote c" s3] by auto
  have v: "validOpen ?ws1 q1 p q2 ?ws2"
    using w c p q2 takeWhile_dropWhile_all[of isSpace] takeWhile_dropWhile_all[of "\<lambda>c. \<not> isQuote c" s3]
    by (simp add: validOpen_def)
  from lazyUntil_closeTag_D[OF f] have s5: "s5 = body @ closeTag @ rest" "\<not> sublist closeTag body"
    by simp_all
  have "s = ''<file'' @ s1" using a by (simp add: stripPrefix_Some_iff)
  also have "s1 = ?ws1 @ dropWhile isSpace s1" by simp
  also have "dropWhile isSpace s1 = ''path='' @ s2" using b by (simp add: stripPrefix_Some_iff)
  also have "s2 = q1 # (p @ q2 # s4)" using c p d takeWhile_dropWhile_id[of "\<lambda>c. \<not> isQuote c" s3] by simp
  also have "s4 = ?ws2 @ dropWhile isSpace s4" by simp
  also have "dropWhile isSpace s4 = ''>'' @ s5" using e by (simp add: stripPrefix_Some_iff)
  finally have "s = openTag ?ws1 q1 p q2 ?ws2 @ body @ closeTag @ rest"
    by (simp add: openTag_def s5)
  with v s5 show ?thesis by blast
qed

lemma matchFileRegex_length:
  assumes "matchFileRegex s = Some (p, b, r)"
  shows "length r < length s"
proof -
  from matchFileRegex_D[OF assms] obtain ws1 q1 q2 ws2 where
    "s = openTag ws1 q1 p q2 ws2 @ b @ closeTag @ r" by blast
  then show ?thesis by (simp add: openTag_def)
qed

lemma matchFileRegex_suffix:
  assumes "matchFileRegex s = Some (p, b, r)"
  shows "suffix r s"
proof -
  from matchFileRegex_D[OF assms] obtain ws1 q1 q2 ws2 where
    "s = (openTag ws1 q1 p q2 ws2 @ b @ closeTag) @ r" by auto
  then show ?thesis by (rule suffixI)
qed

lemma searchFrom_Some_D:
  "searchFrom s = Some m \<Longrightarrow>
   \<exists>pre u. s = pre @ u \<and> matchFileRegex u = Some m \<and>
            (\<forall>k<length pre. matchFileRegex (drop k s) = None)"
proof (induction s)
  case Nil
  then show ?case by simp
next
  case (Cons c cs)
  show ?case
  proof (cases "matchFileRegex (c # cs)")
    case (Some m')
    with Cons.prems have "matchFileRegex (c # cs) = Some m" by simp
    then have "c # cs = [] @ (c # cs) \<and> matchFileRegex (c # cs) = Some m \<and>
       (\<forall>k<length ([]::string). matchFileRegex (drop k (c # cs)) = None)" by simp
    then show ?thesis by blast
  next
    case None
    with Cons.prems have "searchFrom cs = Some m" by simp
    from Cons.IH[OF this] obtain pre u where
      pu: "cs = pre @ u" "matchFileRegex u = Some m"
      "\<forall>k<length pre. matchFileRegex (drop k cs) = None" by blast
    have "\<forall>k<length (c # pre). matchFileRegex (drop k (c # cs)) = None"
    proof (intro allI impI)
      fix k assume "k < length (c # pre)"
      then show "matchFileRegex (drop k (c # cs)) = None"
        using None pu(3) by (cases k) auto
    qed
    with pu have "c # cs = (c # pre) @ u \<and> matchFileRegex u = Some m \<and>
       (\<forall>k<length (c # pre). matchFileRegex (drop k (c # cs)) = None)" by simp
    then show ?thesis by blast
  qed
qed

lemma matchFileRegex_Nil: "matchFileRegex [] = None"
  by (simp add: matchFileRegex_def stripPrefix_def)

lemma searchFrom_skip:
  "(\<And>k. k < length pre \<Longrightarrow> matchFileRegex (drop k (pre @ u)) = None) \<Longrightarrow>
   searchFrom (pre @ u) = searchFrom u"
proof (induction pre)
  case Nil
  then show ?case by simp
next
  case (Cons c pre)
  from Cons.prems[of 0] have "matchFileRegex (c # pre @ u) = None" by simp
  moreover have "searchFrom (pre @ u) = searchFrom u"
  proof (rule Cons.IH)
    fix k assume "k < length pre"
    then show "matchFileRegex (drop k (pre @ u)) = None" using Cons.prems[of "Suc k"] by simp
  qed
  ultimately show ?case by simp
qed

lemma searchFrom_here: "matchFileRegex u = Some m \<Longrightarrow> searchFrom u = Some m"
  by (cases u) (simp_all add: matchFileRegex_Nil)

lemma searchFrom_None_iff: "searchFrom s = None \<longleftrightarrow> (\<forall>k. matchFileRegex (drop k s) = None)"
proof (induction s)
  case Nil
  then show ?case by (simp add: matchFileRegex_Nil)
next
  case (Cons c cs)
  show ?case
  proof
    assume a: "searchFrom (c # cs) = None"
    then have h: "matchFileRegex (c # cs) = None" "searchFrom cs = None"
      by (auto split: option.splits)
    show "\<forall>k. matchFileRegex (drop k (c # cs)) = None"
    proof
      fix k show "matchFileRegex (drop k (c # cs)) = None"
        using h Cons.IH by (cases k) auto
    qed
  next
    assume a: "\<forall>k. matchFileRegex (drop k (c # cs)) = None"
    from a[rule_format, of 0] have 1: "matchFileRegex (c # cs) = None" by simp
    have "\<forall>k. matchFileRegex (drop k cs) = None"
    proof
      fix k show "matchFileRegex (drop k cs) = None" using a[rule_format, of "Suc k"] by simp
    qed
    with Cons.IH 1 show "searchFrom (c # cs) = None" by simp
  qed
qed

lemma searchFrom_length: "searchFrom s = Some (p, b, r) \<Longrightarrow> length r < length s"
proof -
  assume "searchFrom s = Some (p, b, r)"
  from searchFrom_Some_D[OF this] obtain pre u where
    "s = pre @ u" "matchFileRegex u = Some (p, b, r)" by blast
  with matchFileRegex_length[of u p b r] show ?thesis by simp
qed

lemma searchFrom_suffix: "searchFrom s = Some (p, b, r) \<Longrightarrow> suffix r s"
proof -
  assume "searchFrom s = Some (p, b, r)"
  from searchFrom_Some_D[OF this] obtain pre u where
    "s = pre @ u" "matchFileRegex u = Some (p, b, r)" by blast
  with matchFileRegex_suffix[of u p b r] show ?thesis by (simp add: suffix_append)
qed

lemma fileRegexExec_advance:
  assumes "fileRegexExec text li = (Some m, li')"
  shows "length text - li' < length text - li"
proof -
  from assms obtain p b r where s: "searchFrom (drop li text) = Some (p, b, r)"
    and li': "li' = length text - length r"
    by (auto simp: fileRegexExec_def split: option.splits prod.splits)
  from searchFrom_length[OF s] have "length r < length text - li" by simp
  with li' show ?thesis by simp
qed

function execLoop :: "string \<Rightarrow> nat \<Rightarrow> ProjectFile list \<times> nat" where
  "execLoop text lastIndex =
     (case fileRegexExec text lastIndex of
        (None, li) \<Rightarrow> ([], li)
      | (Some (p, body), li) \<Rightarrow>
          (case execLoop text li of
             (files, final) \<Rightarrow> (mkFile p body # files, final)))"
  by pat_completeness auto
termination
proof (relation "measure (\<lambda>(text, li). length text - li)")
  show "wf (measure (\<lambda>(text, li). length text - li))" by simp
next
  fix t :: string and lastIndex x1 x2 x2a x1a x2b
  assume "(x1, x2) = fileRegexExec t lastIndex" "x1 = Some x2a" "(x1a, x2b) = x2a"
  then have "fileRegexExec t lastIndex = (Some x2a, x2)" by simp
  from fileRegexExec_advance[OF this]
  show "((t, x2), (t, lastIndex)) \<in> measure (\<lambda>(text, li). length text - li)" by simp
qed

definition parseFilesFromResponse :: "string \<Rightarrow> ProjectFile list" where
  "parseFilesFromResponse text = fst (execLoop text 0)"

function scanFiles :: "string \<Rightarrow> ProjectFile list" where
  "scanFiles s =
     (case searchFrom s of
        None \<Rightarrow> []
      | Some (p, body, rest) \<Rightarrow> mkFile p body # scanFiles rest)"
  by pat_completeness auto
termination
proof (relation "measure length")
  show "wf (measure length)" by simp
next
  fix s x2 x1 x2a x1a x2b
  assume "searchFrom s = Some x2" "(x1, x2a) = x2" "(x1a, x2b) = x2a"
  then have "searchFrom s = Some (x1, x1a, x2b)" by simp
  from searchFrom_length[OF this] show "(x2b, s) \<in> measure length" by simp
qed

declare execLoop.simps [simp del] scanFiles.simps [simp del]

lemma execLoop_scan:
  "execLoop t li = (scanFiles (drop li t), 0)"
proof (induction t li rule: execLoop.induct)
  case (1 t lastIndex)
  show ?case
  proof (cases "searchFrom (drop lastIndex t)")
    case None
    then show ?thesis
      by (subst execLoop.simps, subst scanFiles.simps) (simp add: fileRegexExec_def)
  next
    case (Some m)
    obtain p b r where m: "m = (p, b, r)" by (cases m) auto
    from Some m have s: "searchFrom (drop lastIndex t) = Some (p, b, r)" by simp
    have e: "fileRegexExec t lastIndex = (Some (p, b), length t - length r)"
      using s by (simp add: fileRegexExec_def)
    from searchFrom_suffix[OF s] have "suffix r t"
      using suffix_drop suffix_order.trans by blast
    then have d: "drop (length t - length r) t = r"
      by (auto simp: suffix_def)
    from "1.IH"[OF e[symmetric] refl refl] d
    have "execLoop t (length t - length r) = (scanFiles r, 0)" by simp
    then show ?thesis
      by (subst execLoop.simps, subst scanFiles.simps) (simp add: e s)
  qed
qed

lemma parse_scan: "parseFilesFromResponse text = scanFiles text"
  by (simp add: parseFilesFromResponse_def execLoop_scan)

lemma matchFileRegex_prefix: "matchFileRegex s = Some m \<Longrightarrow> prefix ''<file'' s"
  by (auto simp: matchFileRegex_def stripPrefix_def split: option.splits if_splits)

lemma matchFileRegex_sublist_close:
  assumes "matchFileRegex s = Some m"
  shows "sublist closeTag s"
proof -
  obtain p b r where "m = (p, b, r)" by (cases m) auto
  with matchFileRegex_D[of s p b r] assms obtain ws1 q1 q2 ws2 where
    "s = (openTag ws1 q1 p q2 ws2 @ b) @ closeTag @ r" by auto
  then show ?thesis unfolding sublist_def by blast
qed

lemma no_match_before_open:
  assumes "\<not> sublist ''<file'' pre" and "k < length pre"
  shows "matchFileRegex (drop k (pre @ CHR ''<'' # u)) = None"
proof (rule ccontr)
  assume "matchFileRegex (drop k (pre @ CHR ''<'' # u)) \<noteq> None"
  then obtain m where "matchFileRegex (drop k (pre @ CHR ''<'' # u)) = Some m" by auto
  then have "prefix ''<file'' (drop k (pre @ CHR ''<'' # u))" by (rule matchFileRegex_prefix)
  with assms(2) have "prefix ''<file'' (drop k pre @ CHR ''<'' # u)" by simp
  from hd_unique_no_border[OF _ _ this, of "''file''"] assms(2)
  have "prefix ''<file'' (drop k pre)" by simp
  then have "sublist ''<file'' (drop k pre)" by (rule prefix_imp_sublist)
  then have "sublist ''<file'' pre" using sublist_drop sublist_order.order.trans by blast
  with assms(1) show False by simp
qed

lemma openTag_Cons: "openTag ws1 q1 p q2 ws2 @ s = CHR ''<'' # ''file'' @ ws1 @ ''path='' @ [q1] @ p @ [q2] @ ws2 @ ''>'' @ s"
  by (simp add: openTag_def)

lemma scan_declaration:
  assumes v: "validOpen ws1 q1 p q2 ws2" and pre: "\<not> sublist ''<file'' pre"
    and b: "\<not> sublist closeTag body"
  shows "scanFiles (pre @ openTag ws1 q1 p q2 ws2 @ body @ closeTag @ post) =
           mkFile p body # scanFiles post"
proof -
  let ?u = "openTag ws1 q1 p q2 ws2 @ body @ closeTag @ post"
  have m: "matchFileRegex ?u = Some (p, body, post)" using v b by (rule matchFileRegex_intro)
  have "searchFrom (pre @ ?u) = searchFrom ?u"
  proof (rule searchFrom_skip)
    fix k assume "k < length pre"
    with pre show "matchFileRegex (drop k (pre @ ?u)) = None"
      unfolding openTag_Cons by (rule no_match_before_open)
  qed
  also have "\<dots> = Some (p, body, post)" using m by (rule searchFrom_here)
  finally show ?thesis by (subst scanFiles.simps) simp
qed

lemma scan_unclosed:
  assumes pre: "\<not> sublist ''<file'' pre"
    and c: "\<not> sublist closeTag (openTag ws1 q1 p q2 ws2 @ c1)"
  shows "scanFiles (pre @ openTag ws1 q1 p q2 ws2 @ c1) = []"
proof -
  let ?u = "openTag ws1 q1 p q2 ws2 @ c1"
  have "searchFrom (pre @ ?u) = searchFrom ?u"
  proof (rule searchFrom_skip)
    fix k assume "k < length pre"
    with pre show "matchFileRegex (drop k (pre @ ?u)) = None"
      unfolding openTag_Cons by (rule no_match_before_open)
  qed
  also have "\<dots> = None"
    unfolding searchFrom_None_iff
  proof
    fix k
    show "matchFileRegex (drop k ?u) = None"
    proof (rule ccontr)
      assume "matchFileRegex (drop k ?u) \<noteq> None"
      then obtain m where "matchFileRegex (drop k ?u) = Some m" by auto
      then have "sublist closeTag (drop k ?u)" by (rule matchFileRegex_sublist_close)
      then have "sublist closeTag ?u" using sublist_drop sublist_order.order.trans by blast
      with c show False by simp
    qed
  qed
  finally show ?thesis by (subst scanFiles.simps) simp
qed

lemma scan_member_D:
  "f \<in> set (scanFiles s) \<Longrightarrow>
   \<exists>pre u p body rest. s = pre @ u \<and> matchFileRegex u = Some (p, body, rest) \<and> f = mkFile p body"
proof (induction s rule: scanFiles.induct)
  case (1 s)
  show ?case
  proof (cases "searchFrom s")
    case None
    with "1.prems" show ?thesis by (subst (asm) scanFiles.simps) simp
  next
    case (Some m)
    obtain p b r where m: "m = (p, b, r)" by (cases m) auto
    from Some m have s: "searchFrom s = Some (p, b, r)" by simp
    from searchFrom_Some_D[OF s] obtain pre u where
      pu: "s = pre @ u" "matchFileRegex u = Some (p, b, r)" by blast
    from "1.prems" s have "f = mkFile p b \<or> f \<in> set (scanFiles r)"
      by (subst (asm) scanFiles.simps) simp
    then show ?thesis
    proof
      assume "f = mkFile p b"
      with pu show ?thesis by blast
    next
      assume "f \<in> set (scanFiles r)"
      from "1.IH"[OF s refl refl this] obtain pre' u' p' b' r' where
        h: "r = pre' @ u'" "matchFileRegex u' = Some (p', b', r')" "f = mkFile p' b'" by blast
      from searchFrom_suffix[OF s] obtain a where "s = a @ r" by (auto simp: suffix_def)
      with h have "s = (a @ pre') @ u'" by simp
      with h show ?thesis by blast
    qed
  qed
qed

section \<open>Claims about the extractor\<close>

text \<open>
  C1 (as amended). Let the text before an opening tag contain no \<open><file\<close>. A prefix that
  stops after the opening tag, before any \<open></file>\<close> has followed it, yields no artifact
  at all. Once the closing tag has arrived, extraction yields the artifact of this
  declaration first (its path, the body without one leading newline, the language of the
  path) and then the artifacts of the text after the closing tag, which may declare the
  same path again.
\<close>

theorem c1_open_tag_then_closed:
  assumes "validOpen ws1 q1 p q2 ws2"
    and "\<not> sublist ''<file'' pre"
    and "\<not> sublist closeTag (openTag ws1 q1 p q2 ws2 @ c1)"
    and "\<not> sublist closeTag (c1 @ c2)"
  shows "parseFilesFromResponse (pre @ openTag ws1 q1 p q2 ws2 @ c1) = [] \<and>
         parseFilesFromResponse (pre @ openTag ws1 q1 p q2 ws2 @ c1 @ c2 @ closeTag @ post) =
           \<lparr>path = p, content = stripLeadingNewline (c1 @ c2), language = languageOf p\<rparr>
             # parseFilesFromResponse post"
proof
  show "parseFilesFromResponse (pre @ openTag ws1 q1 p q2 ws2 @ c1) = []"
    using assms(2,3) by (simp add: parse_scan scan_unclosed)
  have "scanFiles (pre @ openTag ws1 q1 p q2 ws2 @ (c1 @ c2) @ closeTag @ post) =
          mkFile p (c1 @ c2) # scanFiles post"
    using assms(1,2,4) by (rule scan_declaration)
  then show "parseFilesFromResponse (pre @ openTag ws1 q1 p q2 ws2 @ c1 @ c2 @ closeTag @ post) =
           \<lparr>path = p, content = stripLeadingNewline (c1 @ c2), language = languageOf p\<rparr>
             # parseFilesFromResponse post"
    by (simp add: parse_scan mkFile_def)
qed

text \<open>The two-chunk scenario of the specification, obtained from the theorem.\<close>

theorem c1_two_chunks_witness:
  \<open>validOpen '' '' dquote ''x.ts'' dquote [] \<and>
   \<not> sublist ''<file'' [] \<and>
   \<not> sublist closeTag (openTag '' '' dquote ''x.ts'' dquote [] @ ''ABC'') \<and>
   \<not> sublist closeTag (''ABC'' @ ''DEF'') \<and>
   parseFilesFromResponse ''<file path="x.ts">ABC'' = [] \<and>
   parseFilesFromResponse (''<file path="x.ts">ABC'' @ ''DEF</file>'') =
     [\<lparr>path = ''x.ts'', content = ''ABCDEF'', language = ''javascript''\<rparr>]\<close>
proof -
  have v: "validOpen '' '' dquote ''x.ts'' dquote []"
    by (simp add: validOpen_def isSpace_def isQuote_def dquote_def squote_def)
  have n: "\<not> sublist ''<file'' ([]::string)" by simp
  have o: \<open>openTag '' '' dquote ''x.ts'' dquote [] = ''<file path="x.ts">''\<close>
    by (simp add: openTag_def dquote_def)
  have c: "\<not> sublist closeTag (openTag '' '' dquote ''x.ts'' dquote [] @ ''ABC'')"
    unfolding o closeTag_def by (simp add: sublist_Cons_right)
  have b: "\<not> sublist closeTag (''ABC'' @ ''DEF'')"
    unfolding closeTag_def by (simp add: sublist_Cons_right)
  have e: "parseFilesFromResponse [] = []" by code_simp
  have l: "languageOf ''x.ts'' = ''javascript''" by code_simp
  have s: "stripLeadingNewline (''ABC'' @ ''DEF'') = ''ABCDEF''"
    by (simp add: stripLeadingNewline_def newline_def)
  from c1_open_tag_then_closed[OF v n c b, of "[]"] v n c b show ?thesis
    unfolding o e l s by (simp add: closeTag_def)
qed

text \<open>
  C1 as stated fails: the prefix below ends inside an open tag, no \<open></file>\<close> has
  appeared in it, and the closed buffer yields two artifacts for the path, not one.
\<close>

theorem c1_counterexample:
  \<open>prefix ''<file path="x.ts">ABC'' ''<file path="x.ts">ABCDEF</file><file path="x.ts">Z</file>'' \<and>
   parseFilesFromResponse ''<file path="x.ts">ABC'' = [] \<and>
   parseFilesFromResponse ''<file path="x.ts">ABCDEF</file><file path="x.ts">Z</file>'' =
     [\<lparr>path = ''x.ts'', content = ''ABCDEF'', language = ''javascript''\<rparr>,
      \<lparr>path = ''x.ts'', content = ''Z'', language = ''javascript''\<rparr>]\<close>
  by code_simp



lemma matchFileRegex_at_tag:
  assumes ws: "list_all isSpace ws1" and q1: "isQuote q1"
    and p: "list_all (\<lambda>c. \<not> isQuote c) p" and q2: "isQuote q2"
  shows "matchFileRegex (''<file'' @ ws1 @ ''path='' @ [q1] @ p @ [q2] @ rest) =
     (if ws1 = [] \<or> p = [] then None
      else (case stripPrefix ''>'' (dropWhile isSpace rest) of
              None \<Rightarrow> None
            | Some s5 \<Rightarrow>
                (case lazyUntil closeTag s5 of
                   None \<Rightarrow> None
                 | Some (body, post) \<Rightarrow> Some (p, body, post))))"
proof -
  let ?s3 = "p @ q2 # rest"
  let ?s2 = "q1 # ?s3"
  let ?s1 = "ws1 @ CHR ''p'' # ''ath='' @ ?s2"
  have np: "\<not> isSpace CHR ''p''" by (simp add: isSpace_def)
  have nq: "\<not> (\<not> isQuote q2)" using q2 by simp
  have 1: "stripPrefix ''<file'' (''<file'' @ ?s1) = Some ?s1" by (rule stripPrefix_append)
  have 2: "takeWhile isSpace ?s1 = ws1" "dropWhile isSpace ?s1 = ''path='' @ ?s2"
    using ws np by (simp_all add: takeWhile_run dropWhile_run)
  have 3: "stripPrefix ''path='' (''path='' @ ?s2) = Some ?s2" by (rule stripPrefix_append)
  have 4: "takeWhile (\<lambda>c. \<not> isQuote c) ?s3 = p" "dropWhile (\<lambda>c. \<not> isQuote c) ?s3 = q2 # rest"
    using p nq by (simp_all add: takeWhile_run dropWhile_run)
  have "matchFileRegex (''<file'' @ ?s1) =
     (if ws1 = [] \<or> p = [] then None
      else (case stripPrefix ''>'' (dropWhile isSpace rest) of
              None \<Rightarrow> None
            | Some s5 \<Rightarrow>
                (case lazyUntil closeTag s5 of
                   None \<Rightarrow> None
                 | Some (body, post) \<Rightarrow> Some (p, body, post))))"
    unfolding matchFileRegex_def 1 option.case 2 3 list.case 4 using q1 by simp
  then show ?thesis by simp
qed

text \<open>
  C10 (as amended). For every buffer, every emitted artifact has a non-empty path without
  a single or double quote. An opening tag whose attribute is empty is not matched where
  it stands. Where a tag opens with a quote, some text without quotes and a quote of
  either kind, a match captures exactly that text as the path, and only when optional
  whitespace and \<open>>\<close> follow the second quote: an attribute value that contains a quote
  is never the path, and its part before the quote can be.
\<close>

theorem c10_path_nonempty_no_quotes:
  "(\<forall>f \<in> set (parseFilesFromResponse buf).
      path f \<noteq> [] \<and> dquote \<notin> set (path f) \<and> squote \<notin> set (path f)) \<and>
   (list_all isSpace ws1 \<and> isQuote q1 \<and> isQuote q2 \<longrightarrow>
      matchFileRegex (''<file'' @ ws1 @ ''path='' @ [q1, q2] @ rest) = None) \<and>
   (list_all isSpace ws1 \<and> isQuote q1 \<and> list_all (\<lambda>c. \<not> isQuote c) p \<and> isQuote q2 \<and>
    matchFileRegex (''<file'' @ ws1 @ ''path='' @ [q1] @ p @ [q2] @ after) = Some (p', body, post) \<longrightarrow>
      p' = p \<and> (\<exists>ws2. list_all isSpace ws2 \<and> after = ws2 @ ''>'' @ body @ closeTag @ post))"
proof -
  have paths: "path f \<noteq> [] \<and> dquote \<notin> set (path f) \<and> squote \<notin> set (path f)"
    if "f \<in> set (parseFilesFromResponse buf)" for f
  proof -
    from that have "f \<in> set (scanFiles buf)" by (simp add: parse_scan)
    from scan_member_D[OF this] obtain pre u p0 b0 r0 where
      h: "buf = pre @ u" "matchFileRegex u = Some (p0, b0, r0)" "f = mkFile p0 b0" by blast
    from matchFileRegex_D[OF h(2)] obtain w1 a1 a2 w2 where
      d: "validOpen w1 a1 p0 a2 w2" by blast
    have p: "path f = p0" using h(3) by (simp add: mkFile_def)
    from d have "p0 \<noteq> []" and q: "\<forall>c\<in>set p0. \<not> isQuote c"
      by (simp_all add: validOpen_def list_all_iff)
    with p show ?thesis by (auto simp: isQuote_def)
  qed
  have empty: "matchFileRegex (''<file'' @ ws1 @ ''path='' @ [q1, q2] @ rest) = None"
    if q: "list_all isSpace ws1 \<and> isQuote q1 \<and> isQuote q2"
  proof -
    from q have "matchFileRegex (''<file'' @ ws1 @ ''path='' @ [q1] @ [] @ [q2] @ rest) = None"
      by (subst matchFileRegex_at_tag) simp_all
    then show ?thesis by simp
  qed
  have quoted: "p' = p \<and> (\<exists>ws2. list_all isSpace ws2 \<and> after = ws2 @ ''>'' @ body @ closeTag @ post)"
    if a: "list_all isSpace ws1 \<and> isQuote q1 \<and> list_all (\<lambda>c. \<not> isQuote c) p \<and> isQuote q2 \<and>
      matchFileRegex (''<file'' @ ws1 @ ''path='' @ [q1] @ p @ [q2] @ after) = Some (p', body, post)"
  proof -
    from a have m: "(if ws1 = [] \<or> p = [] then None
        else (case stripPrefix ''>'' (dropWhile isSpace after) of
                None \<Rightarrow> None
              | Some s5 \<Rightarrow>
                  (case lazyUntil closeTag s5 of
                     None \<Rightarrow> None
                   | Some (body, post) \<Rightarrow> Some (p, body, post)))) = Some (p', body, post)"
      using matchFileRegex_at_tag[of ws1 q1 p q2 after] by simp
    then obtain s5 where s5: "stripPrefix ''>'' (dropWhile isSpace after) = Some s5"
      and l: "lazyUntil closeTag s5 = Some (body, post)" and pp: "p' = p"
      by (auto split: if_splits option.splits prod.splits)
    from s5 have "dropWhile isSpace after = ''>'' @ s5" by (simp add: stripPrefix_Some_iff)
    moreover from l have "s5 = body @ closeTag @ post" by (rule lazyUntil_Some_D)
    moreover have "after = takeWhile isSpace after @ dropWhile isSpace after" by simp
    ultimately have "after = takeWhile isSpace after @ ''>'' @ body @ closeTag @ post" by simp
    moreover have "list_all isSpace (takeWhile isSpace after)" by (rule takeWhile_dropWhile_all)
    ultimately have "\<exists>ws2. list_all isSpace ws2 \<and> after = ws2 @ ''>'' @ body @ closeTag @ post"
      by blast
    with pp show ?thesis by simp
  qed
  from paths empty quoted show ?thesis by blast
qed

text \<open>
  The empty attribute, and a double-quoted attribute with a single quote in it: the text
  before the single quote becomes the path when \<open>>\<close> follows the quote.
\<close>

theorem c10_path_witness:
  \<open>\<lparr>path = ''a'', content = [CHR ''b'', dquote, CHR ''>'', CHR ''x''], language = ''text''\<rparr>
     \<in> set (parseFilesFromResponse ''<file path="a'>b">x</file>'') \<and>
   ''a'' \<noteq> [] \<and> dquote \<notin> set ''a'' \<and> squote \<notin> set ''a'' \<and>
   list_all isSpace '' '' \<and> isQuote dquote \<and> isQuote squote \<and>
   matchFileRegex ''<file path="">x</file>'' = None \<and>
   matchFileRegex ''<file path="a'>b">x</file>'' = Some (''a'', [CHR ''b'', dquote, CHR ''>'', CHR ''x''], []) \<and>
   (\<exists>ws2. list_all isSpace ws2 \<and>
      [CHR ''>'', CHR ''b'', dquote, CHR ''>'', CHR ''x''] @ ''</file>'' =
        ws2 @ ''>'' @ [CHR ''b'', dquote, CHR ''>'', CHR ''x''] @ closeTag @ [])\<close>
proof -
  have m: \<open>\<lparr>path = ''a'', content = [CHR ''b'', dquote, CHR ''>'', CHR ''x''], language = ''text''\<rparr>
     \<in> set (parseFilesFromResponse ''<file path="a'>b">x</file>'')\<close>
    by code_simp
  have s: "list_all isSpace '' ''" "isQuote dquote" "isQuote squote"
    "list_all (\<lambda>c. \<not> isQuote c) ''a''"
    by (simp_all add: isSpace_def isQuote_def dquote_def squote_def)
  have e: \<open>''<file'' @ '' '' @ ''path='' @ [dquote, dquote] @ ''>x</file>'' = ''<file path="">x</file>''\<close>
    by (simp add: dquote_def)
  have t: \<open>''<file'' @ '' '' @ ''path='' @ [dquote] @ ''a'' @ [squote] @
             ([CHR ''>'', CHR ''b'', dquote, CHR ''>'', CHR ''x''] @ ''</file>'') =
           ''<file path="a'>b">x</file>''\<close>
    by (simp add: dquote_def squote_def)
  have k: \<open>matchFileRegex ''<file path="a'>b">x</file>'' =
           Some (''a'', [CHR ''b'', dquote, CHR ''>'', CHR ''x''], [])\<close>
    by code_simp
  note i = c10_path_nonempty_no_quotes[where buf = \<open>''<file path="a'>b">x</file>''\<close>
      and ?ws1.0 = "'' ''" and ?q1.0 = dquote and rest = "''>x</file>''" and p = "''a''"
      and after = \<open>[CHR ''>'', CHR ''b'', dquote, CHR ''>'', CHR ''x''] @ ''</file>''\<close>
      and p' = "''a''" and body = \<open>[CHR ''b'', dquote, CHR ''>'', CHR ''x'']\<close> and post = "[]"]
  from i[where ?q2.0 = dquote, unfolded e] s have e0: \<open>matchFileRegex ''<file path="">x</file>'' = None\<close>
    by blast
  from i[where ?q2.0 = squote, unfolded t] s k
  have q0: \<open>\<exists>ws2. list_all isSpace ws2 \<and>
      [CHR ''>'', CHR ''b'', dquote, CHR ''>'', CHR ''x''] @ ''</file>'' =
        ws2 @ ''>'' @ [CHR ''b'', dquote, CHR ''>'', CHR ''x''] @ closeTag @ []\<close>
    by blast
  from m s e0 k q0
  show ?thesis by auto
qed

text \<open>
  C10 as stated fails in its second half: the attribute value between the double quotes
  contains a single quote, and the declaration is matched and yields an artifact.
\<close>

theorem c10_counterexample:
  \<open>parseFilesFromResponse ''<file path="a'>b">x</file>'' =
     [\<lparr>path = ''a'', content = [CHR ''b'', dquote, CHR ''>'', CHR ''x''], language = ''text''\<rparr>]\<close>
  by code_simp

text \<open>
  C8. The table is applied to the text after the last dot of the path, or to the whole
  path when it has no dot: a file called \<open>ts\<close> has no extension and is still labelled
  \<open>javascript\<close>, where the claim says \<open>text\<close>.
\<close>

theorem c8_no_extension_not_text:
  \<open>parseFilesFromResponse ''<file path="ts">x</file>'' =
     [\<lparr>path = ''ts'', content = ''x'', language = ''javascript''\<rparr>]\<close>
  by code_simp

section \<open>The file store (src/App.tsx, lines 419 to 426)\<close>

text \<open>
  A JavaScript \<^verbatim>\<open>Map\<close> keeps its entries in insertion order; \<^verbatim>\<open>set\<close> on a key
  that is present replaces the value where the entry stands, on a new key it appends.
\<close>

fun mapSet :: "(string \<times> 'v) list \<Rightarrow> string \<Rightarrow> 'v \<Rightarrow> (string \<times> 'v) list" where
  "mapSet [] k v = [(k, v)]"
| "mapSet ((k', v') # m) k v = (if k' = k then (k, v) # m else (k', v') # mapSet m k v)"

text \<open>\<^verbatim>\<open>new Map(entries)\<close> sets the entries one after the other.\<close>

definition newMap :: "(string \<times> 'v) list \<Rightarrow> (string \<times> 'v) list" where
  "newMap entries = foldl (\<lambda>m (k, v). mapSet m k v) [] entries"

definition mapValues :: "(string \<times> 'v) list \<Rightarrow> 'v list" where
  "mapValues m = map snd m"

text \<open>The updater passed to \<^verbatim>\<open>setFiles\<close>.\<close>

definition upsertFiles :: "ProjectFile list \<Rightarrow> ProjectFile list \<Rightarrow> ProjectFile list" where
  "upsertFiles prevFiles parsedFiles =
     mapValues (foldl (\<lambda>m f. mapSet m (path f) f)
                      (newMap (map (\<lambda>f. (path f, f)) prevFiles)) parsedFiles)"

text \<open>One stream update: the store changes only when the parse found something.\<close>

definition storeStep :: "ProjectFile list \<Rightarrow> ProjectFile list \<Rightarrow> ProjectFile list" where
  "storeStep prevFiles parsedFiles =
     (if length parsedFiles > 0 then upsertFiles prevFiles parsedFiles else prevFiles)"

text \<open>The store after a sequence of updates, each with the artifacts parsed at that update.\<close>

definition upsertAll :: "ProjectFile list \<Rightarrow> ProjectFile list list \<Rightarrow> ProjectFile list" where
  "upsertAll st0 batches = foldl storeStep st0 batches"

subsection \<open>Facts about the store\<close>

definition setAll :: "(string \<times> ProjectFile) list \<Rightarrow> ProjectFile list \<Rightarrow> (string \<times> ProjectFile) list" where
  "setAll m fs = foldl (\<lambda>m f. mapSet m (path f) f) m fs"

definition keyed :: "(string \<times> ProjectFile) list \<Rightarrow> bool" where
  "keyed m \<longleftrightarrow> distinct (map fst m) \<and> (\<forall>(k, v) \<in> set m. k = path v)"

lemma mapSet_fresh: "k \<notin> fst ` set m \<Longrightarrow> mapSet m k v = m @ [(k, v)]"
  by (induction m) force+

lemma mapSet_keys:
  "map fst (mapSet m k v) = (if k \<in> fst ` set m then map fst m else map fst m @ [k])"
  by (induction m) force+

lemma mapSet_set: "set (mapSet m k v) \<subseteq> insert (k, v) (set m)"
  by (induction m) (auto split: if_splits)

lemma keyed_mapSet:
  assumes "keyed m"
  shows "keyed (mapSet m (path f) f)"
proof -
  have "distinct (map fst (mapSet m (path f) f))"
    using assms by (simp add: keyed_def mapSet_keys)
  moreover have "\<forall>(k, v) \<in> set (mapSet m (path f) f). k = path v"
    using assms mapSet_set[of m "path f" f] unfolding keyed_def by blast
  ultimately show ?thesis by (simp add: keyed_def)
qed

lemma setAll_snoc: "setAll m (fs @ [f]) = mapSet (setAll m fs) (path f) f"
  by (simp add: setAll_def)

lemma setAll_append: "setAll m (fs @ gs) = setAll (setAll m fs) gs"
  by (simp add: setAll_def)

lemma keyed_setAll: "keyed m \<Longrightarrow> keyed (setAll m fs)"
  by (induction fs rule: rev_induct) (simp_all add: setAll_snoc keyed_mapSet, simp add: setAll_def)

lemma newMap_entries: "newMap (map (\<lambda>f. (path f, f)) fs) = setAll [] fs"
  by (simp add: newMap_def setAll_def foldl_map)

lemma upsertFiles_setAll: "upsertFiles prev parsed = mapValues (setAll [] (prev @ parsed))"
  by (simp add: upsertFiles_def newMap_entries setAll_append) (simp add: setAll_def)

lemma keyed_entries: "keyed m \<Longrightarrow> map (\<lambda>f. (path f, f)) (mapValues m) = m"
  by (induction m) (auto simp: keyed_def mapValues_def)

lemma setAll_distinct: "distinct (map path fs) \<Longrightarrow> setAll [] fs = map (\<lambda>f. (path f, f)) fs"
proof (induction fs rule: rev_induct)
  case Nil
  then show ?case by (simp add: setAll_def)
next
  case (snoc f fs)
  then have "path f \<notin> fst ` set (map (\<lambda>f. (path f, f)) fs)" by (auto simp: image_iff)
  with snoc show ?case by (simp add: setAll_snoc mapSet_fresh)
qed

lemma setAll_values: "setAll [] (mapValues (setAll [] fs)) = setAll [] fs"
proof -
  have k: "keyed (setAll [] fs)" by (rule keyed_setAll) (simp add: keyed_def)
  then have e: "map (\<lambda>f. (path f, f)) (mapValues (setAll [] fs)) = setAll [] fs"
    by (rule keyed_entries)
  then have "map path (mapValues (setAll [] fs)) = map fst (setAll [] fs)"
    by (metis (mono_tags, lifting) fst_conv map_eq_conv map_map o_def)
  with k have "distinct (map path (mapValues (setAll [] fs)))" by (simp add: keyed_def)
  from setAll_distinct[OF this] e show ?thesis by simp
qed

lemma upsertFiles_again:
  "upsertFiles (mapValues (setAll [] fs)) parsed = mapValues (setAll [] (fs @ parsed))"
  by (simp add: upsertFiles_setAll setAll_append setAll_values)

lemma upsertAll_setAll:
  "upsertAll st0 batches =
     (if concat batches = [] then st0 else mapValues (setAll [] (st0 @ concat batches)))"
proof (induction batches rule: rev_induct)
  case Nil
  then show ?case by (simp add: upsertAll_def)
next
  case (snoc b bs)
  have step: "upsertAll st0 (bs @ [b]) = storeStep (upsertAll st0 bs) b"
    by (simp add: upsertAll_def)
  show ?case
  proof (cases "b = []")
    case True
    with snoc step show ?thesis by (simp add: storeStep_def)
  next
    case False
    show ?thesis
    proof (cases "concat bs = []")
      case True
      with snoc have "upsertAll st0 bs = st0" by simp
      with False step True show ?thesis
        by (simp add: storeStep_def upsertFiles_setAll del: concat_eq_Nil_conv)
    next
      case c: False
      with snoc have "upsertAll st0 bs = mapValues (setAll [] (st0 @ concat bs))"
        by (simp del: concat_eq_Nil_conv)
      with False step c show ?thesis
        by (simp add: storeStep_def upsertFiles_again del: concat_eq_Nil_conv)
    qed
  qed
qed

text \<open>Order of first occurrence: \<open>remdups\<close> keeps last occurrences, so it runs on the reversed list.\<close>

lemma firstSeen_snoc:
  "rev (remdups (rev (xs @ [x]))) = (if x \<in> set xs then rev (remdups (rev xs)) else rev (remdups (rev xs)) @ [x])"
  by simp

lemma setAll_paths: "map fst (setAll [] fs) = rev (remdups (rev (map path fs)))"
proof (induction fs rule: rev_induct)
  case Nil
  then show ?case by (simp add: setAll_def)
next
  case (snoc f fs)
  have "fst ` set (setAll [] fs) = set (map fst (setAll [] fs))" by simp
  also have "\<dots> = path ` set fs" unfolding snoc by simp
  finally have "fst ` set (setAll [] fs) = path ` set fs" .
  then show ?case
    by (simp add: setAll_snoc mapSet_keys snoc)
qed

lemma values_paths: "keyed m \<Longrightarrow> map path (mapValues m) = map fst m"
  by (induction m) (auto simp: keyed_def mapValues_def)

lemma mapSet_filter:
  "keyed m \<Longrightarrow>
   filter (\<lambda>g. path g = p) (mapValues (mapSet m (path f) f)) =
     (if p = path f then [f] else filter (\<lambda>g. path g = p) (mapValues m))"
proof (induction m)
  case Nil
  then show ?case by (simp add: mapValues_def)
next
  case (Cons e m)
  obtain k v where e: "e = (k, v)" by (cases e) auto
  from Cons.prems e have k: "keyed m" "k = path v" "k \<notin> fst ` set m"
    by (auto simp: keyed_def)
  have nf: "path f = k \<Longrightarrow> filter (\<lambda>g. path g = path f) (mapValues m) = []"
  proof -
    assume "path f = k"
    with k(3) values_paths[OF k(1)] have "path f \<notin> set (map path (mapValues m))" by simp
    then have "\<forall>g\<in>set (mapValues m). path g \<noteq> path f" by (simp add: image_iff) metis
    then show ?thesis by (simp add: filter_empty_conv)
  qed
  from Cons.IH[OF k(1)] e k(2) nf show ?case
    by (auto simp: mapValues_def)
qed

lemma setAll_last:
  "p \<in> path ` set fs \<Longrightarrow>
   filter (\<lambda>g. path g = p) (mapValues (setAll [] fs)) = [last (filter (\<lambda>g. path g = p) fs)]"
proof (induction fs rule: rev_induct)
  case Nil
  then show ?case by simp
next
  case (snoc f fs)
  have k: "keyed (setAll [] fs)" by (rule keyed_setAll) (simp add: keyed_def)
  show ?case
  proof (cases "p = path f")
    case True
    then show ?thesis by (simp add: setAll_snoc mapSet_filter[OF k])
  next
    case False
    with snoc.prems have "p \<in> path ` set fs" by auto
    from snoc.IH[OF this] False show ?thesis
      by (simp add: setAll_snoc mapSet_filter[OF k])
  qed
qed

text \<open>
  C2. Start from any store and apply the updates of a stream. A path that occurs in the
  extracted artifacts has exactly one entry in the final store; the entry is the last
  artifact extracted for that path; and the paths of the final store stand in the order
  of their first occurrence, counting the entries the store started with, so an update
  neither moves an entry nor reorders the others.
\<close>

theorem c2_upsert_last_content_first_position:
  assumes "p \<in> path ` set (concat batches)"
  shows "length (filter (\<lambda>f. path f = p) (upsertAll st0 batches)) = 1 \<and>
         filter (\<lambda>f. path f = p) (upsertAll st0 batches) =
           [last (filter (\<lambda>f. path f = p) (concat batches))] \<and>
         map path (upsertAll st0 batches) = rev (remdups (rev (map path (st0 @ concat batches))))"
proof -
  let ?arts = "concat batches"
  from assms have ne: "?arts \<noteq> []" by force
  then have fin: "upsertAll st0 batches = mapValues (setAll [] (st0 @ ?arts))"
    by (simp add: upsertAll_setAll del: concat_eq_Nil_conv)
  from assms have "filter (\<lambda>f. path f = p) ?arts \<noteq> []"
    by (auto simp: filter_empty_conv)
  then have l: "last (filter (\<lambda>f. path f = p) (st0 @ ?arts)) = last (filter (\<lambda>f. path f = p) ?arts)"
    by simp
  from assms have "p \<in> path ` set (st0 @ ?arts)" by auto
  from setAll_last[OF this] l
  have f: "filter (\<lambda>f. path f = p) (upsertAll st0 batches) = [last (filter (\<lambda>f. path f = p) ?arts)]"
    by (simp add: fin)
  have "keyed (setAll [] (st0 @ ?arts))" by (rule keyed_setAll) (simp add: keyed_def)
  then have "map path (upsertAll st0 batches) = map fst (setAll [] (st0 @ ?arts))"
    unfolding fin by (rule values_paths)
  then have o: "map path (upsertAll st0 batches) = rev (remdups (rev (map path (st0 @ ?arts))))"
    by (simp only: setAll_paths)
  from f o show ?thesis by simp
qed

text \<open>A store with \<open>a\<close> and \<open>b\<close>; the stream rewrites \<open>b\<close> twice and adds \<open>c\<close>.\<close>

theorem c2_upsert_witness:
  "''b'' \<in> path ` set (concat
      [[\<lparr>path = ''b'', content = ''1'', language = ''text''\<rparr>], [],
       [\<lparr>path = ''c'', content = ''1'', language = ''text''\<rparr>,
        \<lparr>path = ''b'', content = ''2'', language = ''text''\<rparr>]]) \<and>
   filter (\<lambda>f. path f = ''b'')
     (upsertAll [\<lparr>path = ''a'', content = ''0'', language = ''text''\<rparr>,
                 \<lparr>path = ''b'', content = ''0'', language = ''text''\<rparr>]
      [[\<lparr>path = ''b'', content = ''1'', language = ''text''\<rparr>], [],
       [\<lparr>path = ''c'', content = ''1'', language = ''text''\<rparr>,
        \<lparr>path = ''b'', content = ''2'', language = ''text''\<rparr>]]) =
     [\<lparr>path = ''b'', content = ''2'', language = ''text''\<rparr>] \<and>
   map path
     (upsertAll [\<lparr>path = ''a'', content = ''0'', language = ''text''\<rparr>,
                 \<lparr>path = ''b'', content = ''0'', language = ''text''\<rparr>]
      [[\<lparr>path = ''b'', content = ''1'', language = ''text''\<rparr>], [],
       [\<lparr>path = ''c'', content = ''1'', language = ''text''\<rparr>,
        \<lparr>path = ''b'', content = ''2'', language = ''text''\<rparr>]]) = [''a'', ''b'', ''c'']"
  using c2_upsert_last_content_first_position[of "''b''"
      "[[\<lparr>path = ''b'', content = ''1'', language = ''text''\<rparr>], [],
       [\<lparr>path = ''c'', content = ''1'', language = ''text''\<rparr>,
        \<lparr>path = ''b'', content = ''2'', language = ''text''\<rparr>]]"
      "[\<lparr>path = ''a'', content = ''0'', language = ''text''\<rparr>,
        \<lparr>path = ''b'', content = ''0'', language = ''text''\<rparr>]"]
  by simp

section \<open>The flow graph and one generation turn (src/App.tsx, src/services/geminiService.ts)\<close>

text \<open>
  The node and edge types are declared in a file that is not part of the sources at hand;
  the records list the fields the code reads and writes. The fields \<^verbatim>\<open>id\<close>,
  \<^verbatim>\<open>type\<close>, \<^verbatim>\<open>x\<close> and \<^verbatim>\<open>y\<close> are renamed. Type and status are the string
  literals of the code. Coordinates are integers.
\<close>

record NodeData =
  preview :: string
  fullContent :: string

record GraphNode =
  nodeId :: string
  nodeType :: string
  label :: string
  subLabel :: string
  status :: string
  nodeX :: int
  nodeY :: int
  nodeData :: NodeData

record GraphEdge =
  edgeId :: string
  source :: string
  target :: string
  animated :: bool

text \<open>
  The part of the component state that the graph and the store live in. The chat
  transcript and the token counters are left out: nothing below reads them.
\<close>

record AppState =
  nodes :: "GraphNode list"
  edges :: "GraphEdge list"
  files :: "ProjectFile list"

text \<open>
  The grounding metadata of a chunk is opaque to the code, which reads the number of
  grounding chunks (when the field is there) and prints the object as JSON.
\<close>

record GroundingMetadata =
  groundingChunksLength :: "nat option"
  asJson :: string

record StreamUpdate =
  updText :: string
  groundingMetadata :: "GroundingMetadata option"
  usageMetadata :: bool

text \<open>Decimal rendering of a number inside a template string.\<close>

fun showNat :: "nat \<Rightarrow> string" where
  "showNat n =
     (if n < 10 then [char_of (48 + n)]
      else showNat (n div 10) @ [char_of (48 + n mod 10)])"

declare showNat.simps [simp del]

definition fileNodeId :: "string \<Rightarrow> string \<Rightarrow> string" where
  "fileNodeId modelNodeId p = ''file-'' @ modelNodeId @ ''-'' @ p"

text \<open>
  One round of the \<^verbatim>\<open>parsedFiles.forEach\<close> of lines 432 to 471. The state is the
  copied node array, the running offset and the edge list (each \<^verbatim>\<open>setEdges\<close> updater
  runs in the order it was queued). In the branch of a known node the code calls
  \<^verbatim>\<open>updatedNodes.map(...)\<close> and drops the array it returns, so nothing changes.
\<close>

definition fileNodeStep ::
  "string \<Rightarrow> int \<Rightarrow> GraphNode list \<times> int \<times> GraphEdge list \<Rightarrow> ProjectFile \<Rightarrow>
   GraphNode list \<times> int \<times> GraphEdge list" where
  "fileNodeStep modelNodeId startY acc file =
     (case acc of (updatedNodes, fileYOffset, es) \<Rightarrow>
        (let fid = fileNodeId modelNodeId (path file) in
         case find (\<lambda>n. nodeId n = fid) updatedNodes of
           None \<Rightarrow>
             (updatedNodes @
                [\<lparr>nodeId = fid, nodeType = ''file'',
                  label = (let base = last (splitOn CHR ''/'' (path file))
                           in if base = [] then ''file'' else base),
                  subLabel = ''Artifact Generation'', status = ''complete'',
                  nodeX = 900, nodeY = startY + fileYOffset,
                  nodeData = \<lparr>preview = language file, fullContent = content file\<rparr>\<rparr>],
              fileYOffset + 150,
              (case find (\<lambda>e. target e = fid) es of
                 None \<Rightarrow> es @ [\<lparr>edgeId = ''e-'' @ modelNodeId @ ''-'' @ fid,
                                source = modelNodeId, target = fid, animated = False\<rparr>]
               | Some e \<Rightarrow> es))
         | Some n \<Rightarrow> (updatedNodes, fileYOffset, es)))"

definition projectFileNodes ::
  "string \<Rightarrow> int \<Rightarrow> ProjectFile list \<Rightarrow> GraphNode list \<Rightarrow> GraphEdge list \<Rightarrow>
   GraphNode list \<times> GraphEdge list" where
  "projectFileNodes modelNodeId startY parsedFiles currentNodes currentEdges =
     (case foldl (fileNodeStep modelNodeId startY) (currentNodes, 0, currentEdges) parsedFiles of
        (updatedNodes, fileYOffset, es) \<Rightarrow> (updatedNodes, es))"

text \<open>
  The callback handed to the stream (lines 363 to 481), statement by statement. First the
  agent node shows the text so far (lines 381 to 389).
\<close>

definition showAgentText :: "string \<Rightarrow> string \<Rightarrow> GraphNode list \<Rightarrow> GraphNode list" where
  "showAgentText modelNodeId chunkText ns =
     map (\<lambda>n. if nodeId n = modelNodeId
              then n\<lparr>nodeData := \<lparr>preview = take 80 chunkText @ ''...'', fullContent = chunkText\<rparr>\<rparr>
              else n) ns"

text \<open>The tool node and its edge (lines 393 to 415); \<open>now\<close> is the clock reading in the id.\<close>

definition addToolNode :: "string \<Rightarrow> int \<Rightarrow> nat \<Rightarrow> GroundingMetadata \<Rightarrow> AppState \<Rightarrow> AppState" where
  "addToolNode modelNodeId startY now g st =
     (let toolNodeId = ''tool-'' @ showNat now in
      st\<lparr>nodes := nodes st @
             [\<lparr>nodeId = toolNodeId, nodeType = ''tool'', label = ''Google Search'',
               subLabel = ''Grounding'', status = ''complete'',
               nodeX = 300, nodeY = startY + 150,
               nodeData =
                 \<lparr>preview = ''Found '' @
                      showNat (case groundingChunksLength g of None \<Rightarrow> 0 | Some k \<Rightarrow> k) @
                      '' sources'',
                   fullContent = asJson g\<rparr>\<rparr>],
          edges := edges st @
             [\<lparr>edgeId = ''e-'' @ modelNodeId @ ''-'' @ toolNodeId,
               source = modelNodeId, target = toolNodeId, animated = False\<rparr>]\<rparr>)"

text \<open>The store and the file nodes (lines 420 to 473), entered when the parse found something.\<close>

definition applyParsedFiles :: "string \<Rightarrow> int \<Rightarrow> ProjectFile list \<Rightarrow> AppState \<Rightarrow> AppState" where
  "applyParsedFiles modelNodeId startY parsedFiles st =
     (case projectFileNodes modelNodeId startY parsedFiles (nodes st) (edges st) of
        (ns, es) \<Rightarrow> st\<lparr>files := upsertFiles (files st) parsedFiles, nodes := ns, edges := es\<rparr>)"

text \<open>The whole callback; \<open>toolNodeCreated\<close> is the local flag of the turn.\<close>

definition onUpdate ::
  "string \<Rightarrow> int \<Rightarrow> nat \<Rightarrow> StreamUpdate \<Rightarrow> bool \<times> AppState \<Rightarrow> bool \<times> AppState" where
  "onUpdate modelNodeId startY now upd acc =
     (case acc of (toolNodeCreated, st) \<Rightarrow>
        (let chunkText = updText upd;
             st1 = st\<lparr>nodes := showAgentText modelNodeId chunkText (nodes st)\<rparr>;
             (created, st2) =
               (case groundingMetadata upd of
                  Some g \<Rightarrow>
                    if \<not> toolNodeCreated then (True, addToolNode modelNodeId startY now g st1)
                    else (toolNodeCreated, st1)
                | None \<Rightarrow> (toolNodeCreated, st1));
             parsedFiles = parseFilesFromResponse chunkText
         in if length parsedFiles > 0
            then (created, applyParsedFiles modelNodeId startY parsedFiles st2)
            else (created, st2)))"

text \<open>
  The stream of the service. Each item is what the iterator delivers next: a chunk,
  together with the state of the abort signal when it arrives, or a failure of the
  transport. A chunk without text has the empty text.
\<close>

datatype StreamItem =
  Chunk (abortedOnArrival: bool) (chunkText: string)
        (chunkGrounding: "GroundingMetadata option") (chunkUsage: bool)
| TransportFails

datatype StreamError = AbortedByUser | TransportFailure

text \<open>The \<^verbatim>\<open>for await\<close> loop of lines 94 to 119, with the callback's state threaded through.\<close>

fun streamLoop ::
  "(StreamUpdate \<Rightarrow> 's \<Rightarrow> 's) \<Rightarrow> StreamItem list \<Rightarrow> string \<Rightarrow> GroundingMetadata option \<Rightarrow> 's \<Rightarrow>
   (StreamError + string) \<times> 's" where
  "streamLoop cb [] fullText foundMetadata s = (Inr fullText, s)"
| "streamLoop cb (TransportFails # rest) fullText foundMetadata s = (Inl TransportFailure, s)"
| "streamLoop cb (Chunk aborted t g u # rest) fullText foundMetadata s =
     (if aborted then (Inl AbortedByUser, s)
      else
        (let found = (case g of
                        Some m \<Rightarrow> (case foundMetadata of None \<Rightarrow> Some m | Some m0 \<Rightarrow> Some m0)
                      | None \<Rightarrow> foundMetadata)
         in if t \<noteq> [] \<or> u then
              streamLoop cb rest (fullText @ t) found
                (cb \<lparr>updText = fullText @ t, groundingMetadata = found, usageMetadata = u\<rparr> s)
            else streamLoop cb rest fullText found s))"

text \<open>
  \<^verbatim>\<open>streamGeminiResponse\<close>: the catch block of lines 123 to 129 turns the abort into
  an ordinary return value and throws every other error again.
\<close>

definition streamGeminiResponse ::
  "(StreamUpdate \<Rightarrow> 's \<Rightarrow> 's) \<Rightarrow> StreamItem list \<Rightarrow> 's \<Rightarrow> (StreamError + string) \<times> 's" where
  "streamGeminiResponse cb items s =
     (case streamLoop cb items [] None s of
        (Inl AbortedByUser, s') \<Rightarrow> (Inr ''Stopped by user.'', s')
      | (Inl TransportFailure, s') \<Rightarrow> (Inl TransportFailure, s')
      | (Inr fullText, s') \<Rightarrow> (Inr fullText, s'))"

text \<open>
  \<^verbatim>\<open>handleRun\<close> from the set-up of the graph (line 293) to the end: two new nodes and
  the animated edge between them, the stream, and the try/catch around it. \<open>now\<close> is the
  clock reading of the set-up, \<open>clock\<close> the reading at each later update.
\<close>

definition maxY :: "GraphNode list \<Rightarrow> int" where
  "maxY ns = foldl max (nodeY (hd ns)) (map nodeY (tl ns))"

definition handleRun :: "string \<Rightarrow> nat \<Rightarrow> nat \<Rightarrow> StreamItem list \<Rightarrow> AppState \<Rightarrow> AppState" where
  "handleRun promptText now clock items st =
     (let startY = (if length (nodes st) > 0 then maxY (nodes st) + 300 else 100);
          userNodeId = ''user-'' @ showNat now;
          modelNodeId = ''model-'' @ showNat now;
          st0 = st\<lparr>nodes := nodes st @
                   [\<lparr>nodeId = userNodeId, nodeType = ''user'', label = ''User Request'',
                     subLabel = ''Input'', status = ''complete'', nodeX = 100, nodeY = startY,
                     nodeData = \<lparr>preview = take 50 promptText @ ''...'', fullContent = promptText\<rparr>\<rparr>,
                    \<lparr>nodeId = modelNodeId, nodeType = ''model'', label = ''Gemini Agent'',
                     subLabel = ''Reasoning & Orchestration'', status = ''active'', nodeX = 500,
                     nodeY = startY,
                     nodeData = \<lparr>preview = ''Thinking...'', fullContent = ''''\<rparr>\<rparr>],
                  edges := edges st @
                   [\<lparr>edgeId = ''e-'' @ userNodeId @ ''-'' @ modelNodeId,
                     source = userNodeId, target = modelNodeId, animated = True\<rparr>]\<rparr>
      in case streamGeminiResponse (onUpdate modelNodeId startY clock) items (False, st0) of
           (Inr fullText, (created, st1)) \<Rightarrow>
             st1\<lparr>nodes := map (\<lambda>n. if nodeId n = modelNodeId then n\<lparr>status := ''complete''\<rparr> else n)
                              (nodes st1),
                 edges := map (\<lambda>e. if target e = modelNodeId then e\<lparr>animated := False\<rparr> else e)
                              (edges st1)\<rparr>
         | (Inl err, (created, st1)) \<Rightarrow>
             st1\<lparr>nodes := map (\<lambda>n. if nodeId n = modelNodeId then n\<lparr>status := ''error''\<rparr> else n)
                              (nodes st1)\<rparr>)"

text \<open>How a stream ends, and the cumulative texts the callback has received by then.\<close>

datatype Termination = Completed | Cancelled | Failed

fun terminationOf :: "StreamItem list \<Rightarrow> Termination" where
  "terminationOf [] = Completed"
| "terminationOf (TransportFails # rest) = Failed"
| "terminationOf (Chunk aborted t g u # rest) = (if aborted then Cancelled else terminationOf rest)"

fun deliveredTexts :: "StreamItem list \<Rightarrow> string \<Rightarrow> string list" where
  "deliveredTexts [] fullText = []"
| "deliveredTexts (TransportFails # rest) fullText = []"
| "deliveredTexts (Chunk aborted t g u # rest) fullText =
     (if aborted then []
      else if t \<noteq> [] \<or> u then (fullText @ t) # deliveredTexts rest (fullText @ t)
      else deliveredTexts rest fullText)"

subsection \<open>Facts about a turn\<close>

lemma streamLoop_result:
  "fst (streamLoop cb items fullText found s) = Inl TransportFailure \<longleftrightarrow> terminationOf items = Failed"
  "fst (streamLoop cb items fullText found s) = Inl AbortedByUser \<longleftrightarrow> terminationOf items = Cancelled"
  by (induction cb items fullText found s rule: streamLoop.induct) (auto simp: Let_def)

lemma streamLoop_invariant:
  assumes "\<And>u s. P s \<Longrightarrow> P (cb u s)" and "P s"
  shows "P (snd (streamLoop cb items fullText found s))"
  using assms(2)
proof (induction items arbitrary: fullText found s)
  case Nil
  then show ?case by simp
next
  case (Cons i items)
  show ?case
  proof (cases i)
    case TransportFails
    with Cons.prems show ?thesis by simp
  next
    case (Chunk aborted t g u)
    with Cons.prems Cons.IH assms(1) show ?thesis by (simp add: Let_def)
  qed
qed

lemma streamGeminiResponse_state:
  "snd (streamGeminiResponse cb items s) = snd (streamLoop cb items [] None s)"
  by (auto simp: streamGeminiResponse_def split: prod.splits sum.splits StreamError.splits)

lemma streamGeminiResponse_result:
  "(\<exists>t. fst (streamGeminiResponse cb items s) = Inr t) \<longleftrightarrow> terminationOf items \<noteq> Failed"
  "fst (streamGeminiResponse cb items s) = Inl e \<longleftrightarrow> e = TransportFailure \<and> terminationOf items = Failed"
  using streamLoop_result[of cb items "[]" None s]
  by (auto simp: streamGeminiResponse_def split: prod.splits sum.splits StreamError.splits)

lemma onUpdate_files:
  "files (snd (onUpdate m y c upd (b, st))) = storeStep (files st) (parseFilesFromResponse (updText upd))"
  by (auto simp: onUpdate_def storeStep_def addToolNode_def applyParsedFiles_def Let_def
      split: option.splits prod.splits)

lemma streamLoop_files:
  "files (snd (snd (streamLoop (onUpdate m y c) items fullText found (b, st)))) =
     upsertAll (files st) (map parseFilesFromResponse (deliveredTexts items fullText))"
proof (induction items arbitrary: fullText found b st)
  case Nil
  then show ?case by (simp add: upsertAll_def)
next
  case (Cons i items)
  show ?case
  proof (cases i)
    case TransportFails
    then show ?thesis by (simp add: upsertAll_def)
  next
    case (Chunk aborted t g u)
    show ?thesis
    proof (cases "aborted \<or> \<not> (t \<noteq> [] \<or> u)")
      case True
      with Chunk Cons.IH show ?thesis by (auto simp: upsertAll_def Let_def)
    next
      case False
      let ?found = "case g of None \<Rightarrow> found | Some m \<Rightarrow> (case found of None \<Rightarrow> Some m | Some m0 \<Rightarrow> Some m0)"
      let ?upd = "\<lparr>updText = fullText @ t, groundingMetadata = ?found, usageMetadata = u\<rparr>"
      obtain b' st' where o: "onUpdate m y c ?upd (b, st) = (b', st')" by (cases "onUpdate m y c ?upd (b, st)") auto
      from onUpdate_files[of m y c ?upd b st] o
      have f: "files st' = storeStep (files st) (parseFilesFromResponse (fullText @ t))" by simp
      from False Chunk have "streamLoop (onUpdate m y c) (i # items) fullText found (b, st) =
          streamLoop (onUpdate m y c) items (fullText @ t) ?found (b', st')"
        by (auto simp: Let_def o)
      with Cons.IH[of "fullText @ t" ?found b' st'] f False Chunk show ?thesis
        by (auto simp: upsertAll_def)
    qed
  qed
qed

lemma fileNodeStep_extends:
  "prefix (fst acc) (fst (fileNodeStep m y acc f)) \<and>
   prefix (snd (snd acc)) (snd (snd (fileNodeStep m y acc f)))"
  by (cases acc) (simp add: fileNodeStep_def Let_def split: option.splits)

lemma foldl_fileNodeStep_extends:
  "prefix (fst acc) (fst (foldl (fileNodeStep m y) acc fs)) \<and>
   prefix (snd (snd acc)) (snd (snd (foldl (fileNodeStep m y) acc fs)))"
proof (induction fs arbitrary: acc)
  case Nil
  show ?case by simp
next
  case (Cons f fs)
  from Cons.IH[of "fileNodeStep m y acc f"] fileNodeStep_extends[of acc m y f]
  have "prefix (fst acc) (fst (foldl (fileNodeStep m y) (fileNodeStep m y acc f) fs))"
    and "prefix (snd (snd acc)) (snd (snd (foldl (fileNodeStep m y) (fileNodeStep m y acc f) fs)))"
    using prefix_order.trans by blast+
  then show ?case by simp
qed

lemma projectFileNodes_extends:
  assumes "projectFileNodes m y fs ns es = (ns', es')"
  shows "prefix ns ns' \<and> prefix es es'"
proof -
  from assms have "ns' = fst (foldl (fileNodeStep m y) (ns, 0, es) fs)"
    and "es' = snd (snd (foldl (fileNodeStep m y) (ns, 0, es) fs))"
    by (auto simp: projectFileNodes_def split: prod.splits)
  with foldl_fileNodeStep_extends[of "(ns, 0, es)" m y fs] show ?thesis by simp
qed

lemma showAgentText_ids: "map nodeId (showAgentText m t ns) = map nodeId ns"
  by (induction ns) (auto simp: showAgentText_def)

lemma addToolNode_extends:
  "prefix (nodes st) (nodes (addToolNode m y c g st)) \<and> prefix (edges st) (edges (addToolNode m y c g st))"
  by (simp add: addToolNode_def Let_def)

lemma applyParsedFiles_extends:
  "prefix (nodes st) (nodes (applyParsedFiles m y fs st)) \<and>
   prefix (edges st) (edges (applyParsedFiles m y fs st))"
proof -
  obtain ns es where p: "projectFileNodes m y fs (nodes st) (edges st) = (ns, es)"
    by (cases "projectFileNodes m y fs (nodes st) (edges st)") auto
  from projectFileNodes_extends[OF p] p show ?thesis by (simp add: applyParsedFiles_def)
qed

lemma onUpdate_extends:
  "prefix (map nodeId (nodes st)) (map nodeId (nodes (snd (onUpdate m y c upd (b, st))))) \<and>
   prefix (edges st) (edges (snd (onUpdate m y c upd (b, st))))"
proof -
  let ?st1 = "st\<lparr>nodes := showAgentText m (updText upd) (nodes st)\<rparr>"
  have 1: "map nodeId (nodes ?st1) = map nodeId (nodes st)" "edges ?st1 = edges st"
    by (simp_all add: showAgentText_ids)
  obtain cr st2 where 2: "(case groundingMetadata upd of
                  Some g \<Rightarrow> if \<not> b then (True, addToolNode m y c g ?st1) else (b, ?st1)
                | None \<Rightarrow> (b, ?st1)) = (cr, st2)" by (rule prod.exhaust)
  have e2: "prefix (nodes ?st1) (nodes st2) \<and> prefix (edges ?st1) (edges st2)"
    using 2 addToolNode_extends[of ?st1 m y c] by (auto split: option.splits if_splits)
  let ?fin = "if length (parseFilesFromResponse (updText upd)) > 0
      then applyParsedFiles m y (parseFilesFromResponse (updText upd)) st2 else st2"
  have e3: "prefix (nodes st2) (nodes ?fin) \<and> prefix (edges st2) (edges ?fin)"
    using applyParsedFiles_extends[of st2 m y] by simp
  have f: "snd (onUpdate m y c upd (b, st)) = ?fin"
    unfolding onUpdate_def Let_def prod.case 2 by (simp only: snd_conv if_distrib[of snd] split: if_splits) 
  from e2 e3 have "prefix (nodes ?st1) (nodes ?fin)" "prefix (edges ?st1) (edges ?fin)"
    using prefix_order.trans by blast+
  then have "prefix (map nodeId (nodes ?st1)) (map nodeId (nodes ?fin))" "prefix (edges st) (edges ?fin)"
    by (simp_all add: map_mono_prefix)
  with 1 f show ?thesis by simp
qed

text \<open>The state in which the stream of a turn ends, before the try/catch of the caller acts.\<close>

lemma handleRun_cases:
  fixes promptText now clock items st
  defines "agent \<equiv> ''model-'' @ showNat now"
    and "user \<equiv> ''user-'' @ showNat now"
    and "final \<equiv> handleRun promptText now clock items st"
  obtains st1 where
    "agent \<in> nodeId ` set (nodes st1)"
    "\<lparr>edgeId = ''e-'' @ user @ ''-'' @ agent, source = user, target = agent, animated = True\<rparr>
       \<in> set (edges st1)"
    "files st1 = upsertAll (files st) (map parseFilesFromResponse (deliveredTexts items []))"
    "terminationOf items \<noteq> Failed \<Longrightarrow>
       final = st1\<lparr>nodes := map (\<lambda>n. if nodeId n = agent then n\<lparr>status := ''complete''\<rparr> else n) (nodes st1),
                   edges := map (\<lambda>e. if target e = agent then e\<lparr>animated := False\<rparr> else e) (edges st1)\<rparr>"
    "terminationOf items = Failed \<Longrightarrow>
       final = st1\<lparr>nodes := map (\<lambda>n. if nodeId n = agent then n\<lparr>status := ''error''\<rparr> else n) (nodes st1)\<rparr>"
proof -
  define startY where "startY = (if length (nodes st) > 0 then maxY (nodes st) + 300 else 100)"
  define e0 where "e0 = \<lparr>edgeId = ''e-'' @ user @ ''-'' @ agent, source = user, target = agent, animated = True\<rparr>"
  define st0 where "st0 = st\<lparr>nodes := nodes st @
                   [\<lparr>nodeId = user, nodeType = ''user'', label = ''User Request'',
                     subLabel = ''Input'', status = ''complete'', nodeX = 100, nodeY = startY,
                     nodeData = \<lparr>preview = take 50 promptText @ ''...'', fullContent = promptText\<rparr>\<rparr>,
                    \<lparr>nodeId = agent, nodeType = ''model'', label = ''Gemini Agent'',
                     subLabel = ''Reasoning & Orchestration'', status = ''active'', nodeX = 500,
                     nodeY = startY,
                     nodeData = \<lparr>preview = ''Thinking...'', fullContent = ''''\<rparr>\<rparr>],
                  edges := edges st @ [e0]\<rparr>"
  define cb where "cb = onUpdate agent startY clock"
  define r where "r = streamGeminiResponse cb items (False, st0)"
  define st1 where "st1 = snd (snd r)"
  have fin: "final = (case r of
           (Inr fullText, (created, st1)) \<Rightarrow>
             st1\<lparr>nodes := map (\<lambda>n. if nodeId n = agent then n\<lparr>status := ''complete''\<rparr> else n)
                              (nodes st1),
                 edges := map (\<lambda>e. if target e = agent then e\<lparr>animated := False\<rparr> else e)
                              (edges st1)\<rparr>
         | (Inl err, (created, st1)) \<Rightarrow>
             st1\<lparr>nodes := map (\<lambda>n. if nodeId n = agent then n\<lparr>status := ''error''\<rparr> else n)
                              (nodes st1)\<rparr>)"
    unfolding final_def handleRun_def Let_def r_def cb_def st0_def e0_def startY_def agent_def user_def
    by (rule refl)
  have s1: "(False, st1) = (False, st1)" by simp
  have loop: "snd r = snd (streamLoop cb items [] None (False, st0))"
    unfolding r_def by (rule streamGeminiResponse_state)
  let ?P = "\<lambda>s :: bool \<times> AppState. prefix (map nodeId (nodes st0)) (map nodeId (nodes (snd s))) \<and>
                prefix (edges st0) (edges (snd s))"
  have "?P (snd (streamLoop cb items [] None (False, st0)))"
  proof (rule streamLoop_invariant)
    show "?P (False, st0)" by simp
  next
    fix u s assume p: "?P s"
    obtain b s' where s: "s = (b, s')" by (cases s) auto
    from onUpdate_extends[of s' agent startY clock u b] p s
    show "?P (cb u s)" unfolding cb_def using prefix_order.trans by auto
  qed
  with loop have inv: "prefix (map nodeId (nodes st0)) (map nodeId (nodes st1))"
    "prefix (edges st0) (edges st1)" by (simp_all add: st1_def)
  have a: "agent \<in> nodeId ` set (nodes st1)"
  proof -
    have "agent \<in> set (map nodeId (nodes st0))" by (simp add: st0_def)
    with inv(1) have "agent \<in> set (map nodeId (nodes st1))" using set_mono_prefix by blast
    then show ?thesis by simp
  qed
  have e: "e0 \<in> set (edges st1)"
  proof -
    have "e0 \<in> set (edges st0)" by (simp add: st0_def)
    with inv(2) show ?thesis using set_mono_prefix by blast
  qed
  have f: "files st1 = upsertAll (files st) (map parseFilesFromResponse (deliveredTexts items []))"
    using streamLoop_files[of agent startY clock items "[]" None False st0] loop
    by (simp add: st1_def cb_def st0_def)
  have ok: "terminationOf items \<noteq> Failed \<Longrightarrow>
       final = st1\<lparr>nodes := map (\<lambda>n. if nodeId n = agent then n\<lparr>status := ''complete''\<rparr> else n) (nodes st1),
                   edges := map (\<lambda>e. if target e = agent then e\<lparr>animated := False\<rparr> else e) (edges st1)\<rparr>"
  proof -
    assume "terminationOf items \<noteq> Failed"
    with streamGeminiResponse_result(1)[of cb items "(False, st0)"]
    obtain t where "fst r = Inr t" unfolding r_def by blast
    then show ?thesis unfolding fin st1_def by (cases r) auto
  qed
  have ko: "terminationOf items = Failed \<Longrightarrow>
       final = st1\<lparr>nodes := map (\<lambda>n. if nodeId n = agent then n\<lparr>status := ''error''\<rparr> else n) (nodes st1)\<rparr>"
  proof -
    assume "terminationOf items = Failed"
    with streamGeminiResponse_result(2)[of cb items "(False, st0)" TransportFailure]
    have "fst r = Inl TransportFailure" unfolding r_def by blast
    then show ?thesis unfolding fin st1_def by (cases r) auto
  qed
  from that[OF a e[unfolded e0_def] f ok ko] show thesis .
qed

text \<open>Reading the status and the stored content of the nodes with a given id.\<close>

definition nodeStatus :: "string \<Rightarrow> GraphNode list \<Rightarrow> string list" where
  "nodeStatus i ns = map status (filter (\<lambda>n. nodeId n = i) ns)"

definition nodeContent :: "string \<Rightarrow> GraphNode list \<Rightarrow> string list" where
  "nodeContent i ns = map (\<lambda>n. fullContent (nodeData n)) (filter (\<lambda>n. nodeId n = i) ns)"

lemma nodeStatus_all:
  assumes "\<exists>n \<in> set ns. nodeId n = i" and "\<forall>n \<in> set ns. nodeId n = i \<longrightarrow> status n = c"
  shows "set (nodeStatus i ns) = {c}"
  using assms by (auto simp: nodeStatus_def)

lemma fileNodeStep_known:
  "find (\<lambda>n. nodeId n = fileNodeId m (path f)) ns = Some n \<Longrightarrow>
   fileNodeStep m y (ns, off, es) f = (ns, off, es)"
  by (simp add: fileNodeStep_def)

section \<open>Claims about the turn\<close>

text \<open>
  C7 (as amended). At the end of a turn the agent node is in the graph. When the stream
  ends normally or is cancelled (the service turns the abort into an ordinary return),
  the agent node has status \<open>complete\<close> and the edge from the request to the agent, like
  every edge into the agent, is no longer animated. When the transport fails, the agent
  node has status \<open>error\<close>. In every case the file store is the one built by the updates
  that were processed before the end: nothing is rolled back.
\<close>

theorem c7_turn_end:
  "(\<exists>n \<in> set (nodes (handleRun promptText now clock items st)). nodeId n = ''model-'' @ showNat now) \<and>
   (terminationOf items \<noteq> Failed \<longrightarrow>
      (\<forall>n \<in> set (nodes (handleRun promptText now clock items st)).
          nodeId n = ''model-'' @ showNat now \<longrightarrow> status n = ''complete'') \<and>
      \<lparr>edgeId = ''e-'' @ (''user-'' @ showNat now) @ ''-'' @ (''model-'' @ showNat now),
        source = ''user-'' @ showNat now, target = ''model-'' @ showNat now, animated = False\<rparr>
        \<in> set (edges (handleRun promptText now clock items st)) \<and>
      (\<forall>e \<in> set (edges (handleRun promptText now clock items st)).
          target e = ''model-'' @ showNat now \<longrightarrow> \<not> animated e)) \<and>
   (terminationOf items = Failed \<longrightarrow>
      (\<forall>n \<in> set (nodes (handleRun promptText now clock items st)).
          nodeId n = ''model-'' @ showNat now \<longrightarrow> status n = ''error'')) \<and>
   files (handleRun promptText now clock items st) =
     upsertAll (files st) (map parseFilesFromResponse (deliveredTexts items []))"
proof -
  let ?agent = "''model-'' @ showNat now" and ?user = "''user-'' @ showNat now"
  let ?final = "handleRun promptText now clock items st"
  obtain st1 where
    a: "?agent \<in> nodeId ` set (nodes st1)"
    and e: "\<lparr>edgeId = ''e-'' @ ?user @ ''-'' @ ?agent, source = ?user, target = ?agent, animated = True\<rparr>
       \<in> set (edges st1)"
    and f: "files st1 = upsertAll (files st) (map parseFilesFromResponse (deliveredTexts items []))"
    and ok: "terminationOf items \<noteq> Failed \<Longrightarrow>
       ?final = st1\<lparr>nodes := map (\<lambda>n. if nodeId n = ?agent then n\<lparr>status := ''complete''\<rparr> else n) (nodes st1),
                   edges := map (\<lambda>e. if target e = ?agent then e\<lparr>animated := False\<rparr> else e) (edges st1)\<rparr>"
    and ko: "terminationOf items = Failed \<Longrightarrow>
       ?final = st1\<lparr>nodes := map (\<lambda>n. if nodeId n = ?agent then n\<lparr>status := ''error''\<rparr> else n) (nodes st1)\<rparr>"
    by (rule handleRun_cases[where now=now and items=items and st=st and promptText=promptText and clock=clock])
       (rule that; assumption)
  from a obtain n0 where n0: "n0 \<in> set (nodes st1)" "nodeId n0 = ?agent" by auto
  show ?thesis
  proof (cases "terminationOf items = Failed")
    case True
    note fin = ko[OF True]
    have "n0\<lparr>status := ''error''\<rparr> \<in> set (nodes ?final)" using n0 unfolding fin by force
    moreover have "nodeId (n0\<lparr>status := s\<rparr>) = ?agent" for s using n0(2) by simp
    ultimately have 1: "\<exists>n \<in> set (nodes ?final). nodeId n = ?agent" by blast
    have 2: "\<forall>n \<in> set (nodes ?final). nodeId n = ?agent \<longrightarrow> status n = ''error''"
      unfolding fin by auto
    have 3: "files ?final = files st1" unfolding fin by simp
    from 1 2 3 f True show ?thesis by simp
  next
    case False
    note fin = ok[OF False]
    have "n0\<lparr>status := ''complete''\<rparr> \<in> set (nodes ?final)" using n0 unfolding fin by force
    moreover have "nodeId (n0\<lparr>status := s\<rparr>) = ?agent" for s using n0(2) by simp
    ultimately have 1: "\<exists>n \<in> set (nodes ?final). nodeId n = ?agent" by blast
    have 2: "\<forall>n \<in> set (nodes ?final). nodeId n = ?agent \<longrightarrow> status n = ''complete''"
      unfolding fin by auto
    have 3: "files ?final = files st1" unfolding fin by simp
    have 4: "\<forall>e \<in> set (edges ?final). target e = ?agent \<longrightarrow> \<not> animated e"
      unfolding fin by auto
    have 5: "\<lparr>edgeId = ''e-'' @ ?user @ ''-'' @ ?agent, source = ?user, target = ?agent, animated = False\<rparr>
        \<in> set (edges ?final)"
      using e unfolding fin by force
    from 1 2 3 4 5 f False show ?thesis by simp
  qed
qed


text \<open>
  A turn that is cancelled after one artifact, and a turn whose transport fails after one
  artifact: the artifact stays in the store in both.
\<close>

theorem c7_turn_end_witness:
  \<open>terminationOf [Chunk False ''<file path="a.ts">1</file>'' None False, Chunk True ''x'' None False] = Cancelled \<and>
   set (nodeStatus ''model-17'' (nodes (handleRun ''hi'' 17 18
        [Chunk False ''<file path="a.ts">1</file>'' None False, Chunk True ''x'' None False]
        \<lparr>nodes = [], edges = [], files = []\<rparr>))) = {''complete''} \<and>
   \<lparr>edgeId = ''e-user-17-model-17'', source = ''user-17'', target = ''model-17'', animated = False\<rparr>
     \<in> set (edges (handleRun ''hi'' 17 18
        [Chunk False ''<file path="a.ts">1</file>'' None False, Chunk True ''x'' None False]
        \<lparr>nodes = [], edges = [], files = []\<rparr>)) \<and>
   files (handleRun ''hi'' 17 18
        [Chunk False ''<file path="a.ts">1</file>'' None False, Chunk True ''x'' None False]
        \<lparr>nodes = [], edges = [], files = []\<rparr>) =
     [\<lparr>path = ''a.ts'', content = ''1'', language = ''javascript''\<rparr>] \<and>
   terminationOf [Chunk False ''<file path="a.ts">1</file>'' None False, TransportFails] = Failed \<and>
   set (nodeStatus ''model-17'' (nodes (handleRun ''hi'' 17 18
        [Chunk False ''<file path="a.ts">1</file>'' None False, TransportFails]
        \<lparr>nodes = [], edges = [], files = []\<rparr>))) = {''error''} \<and>
   files (handleRun ''hi'' 17 18
        [Chunk False ''<file path="a.ts">1</file>'' None False, TransportFails]
        \<lparr>nodes = [], edges = [], files = []\<rparr>) =
     [\<lparr>path = ''a.ts'', content = ''1'', language = ''javascript''\<rparr>]\<close>
proof -
  have n: "showNat 17 = ''17''" by code_simp
  have t1: \<open>terminationOf [Chunk False ''<file path="a.ts">1</file>'' None False, Chunk True ''x'' None False] = Cancelled\<close>
    by simp
  have t2: \<open>terminationOf [Chunk False ''<file path="a.ts">1</file>'' None False, TransportFails] = Failed\<close>
    by simp
  have f1: \<open>upsertAll (files \<lparr>nodes = [], edges = [], files = []\<rparr>)
      (map parseFilesFromResponse
        (deliveredTexts [Chunk False ''<file path="a.ts">1</file>'' None False, Chunk True ''x'' None False] [])) =
      [\<lparr>path = ''a.ts'', content = ''1'', language = ''javascript''\<rparr>]\<close>
    by code_simp
  have f2: \<open>upsertAll (files \<lparr>nodes = [], edges = [], files = []\<rparr>)
      (map parseFilesFromResponse
        (deliveredTexts [Chunk False ''<file path="a.ts">1</file>'' None False, TransportFails] [])) =
      [\<lparr>path = ''a.ts'', content = ''1'', language = ''javascript''\<rparr>]\<close>
    by code_simp
  note a = c7_turn_end[of "''hi''" 17 18
      \<open>[Chunk False ''<file path="a.ts">1</file>'' None False, Chunk True ''x'' None False]\<close>
      "\<lparr>nodes = [], edges = [], files = []\<rparr>", unfolded n t1 f1]
  note b = c7_turn_end[of "''hi''" 17 18
      \<open>[Chunk False ''<file path="a.ts">1</file>'' None False, TransportFails]\<close>
      "\<lparr>nodes = [], edges = [], files = []\<rparr>", unfolded n t2 f2]
  from a have 1: \<open>set (nodeStatus ''model-17'' (nodes (handleRun ''hi'' 17 18
        [Chunk False ''<file path="a.ts">1</file>'' None False, Chunk True ''x'' None False]
        \<lparr>nodes = [], edges = [], files = []\<rparr>))) = {''complete''}\<close>
    by (intro nodeStatus_all) simp_all
  from b have 2: \<open>set (nodeStatus ''model-17'' (nodes (handleRun ''hi'' 17 18
        [Chunk False ''<file path="a.ts">1</file>'' None False, TransportFails]
        \<lparr>nodes = [], edges = [], files = []\<rparr>))) = {''error''}\<close>
    by (intro nodeStatus_all) simp_all
  from a b 1 2 t1 t2 show ?thesis by simp
qed

text \<open>
  C7 as stated fails for cancellation: the abort is seen when the second chunk arrives,
  the service returns normally, and the caller marks the agent node \<open>complete\<close>, not
  \<open>error\<close>.
\<close>

theorem c7_cancel_counterexample:
  \<open>terminationOf [Chunk False ''<file path="a.ts">1</file>'' None False, Chunk True ''x'' None False] = Cancelled \<and>
   nodeStatus ''model-17''
     (nodes (handleRun ''hi'' 17 18
        [Chunk False ''<file path="a.ts">1</file>'' None False, Chunk True ''x'' None False]
        \<lparr>nodes = [], edges = [], files = []\<rparr>)) = [''complete'']\<close>
  by code_simp

text \<open>
  C4. The second update of the turn extracts \<open>a.ts\<close> again, now with the content \<open>2\<close>. The
  store takes the new content; the file node of the turn still holds \<open>1\<close>, because the
  array made by \<^verbatim>\<open>updatedNodes.map\<close> is thrown away.
\<close>

theorem c4_known_path_payload_not_updated:
  \<open>files (handleRun ''hi'' 17 18
      [Chunk False ''<file path="a.ts">1</file>'' None False,
       Chunk False ''<file path="a.ts">2</file>'' None False]
      \<lparr>nodes = [], edges = [], files = []\<rparr>) =
     [\<lparr>path = ''a.ts'', content = ''2'', language = ''javascript''\<rparr>] \<and>
   nodeContent ''file-model-17-a.ts''
     (nodes (handleRun ''hi'' 17 18
        [Chunk False ''<file path="a.ts">1</file>'' None False,
         Chunk False ''<file path="a.ts">2</file>'' None False]
        \<lparr>nodes = [], edges = [], files = []\<rparr>)) = [''1'']\<close>
  by code_simp

section \<open>The project tree (buildFileTree)\<close>

text \<open>
  The node type is declared outside the sources at hand; the fields are those the builder
  writes. \<^verbatim>\<open>children\<close> and \<^verbatim>\<open>content\<close> are optional fields: a file node has no
  children array, a directory node has no content.
\<close>

datatype NodeType = FileT | DirectoryT

datatype FileNode =
  FileNode (fnName: string) (fnPath: string) (fnType: NodeType)
           (fnChildren: "FileNode list option") (fnContent: "string option")

text \<open>\<^verbatim>\<open>file.path.split('/').filter(p => p)\<close>: the non-empty segments of the path.\<close>

definition pathParts :: "string \<Rightarrow> string list" where
  "pathParts p = filter (\<lambda>s. s \<noteq> []) (splitOn CHR ''/'' p)"

text \<open>Line 32: the path of the node one segment further down.\<close>

definition extendPath :: "string \<Rightarrow> string \<Rightarrow> string" where
  "extendPath currentPath part = (if currentPath \<noteq> [] then currentPath @ ''/'' @ part else part)"

text \<open>The node that \<^verbatim>\<open>find\<close> returned is changed in place: the first one with that name.\<close>

fun replaceFirst :: "string \<Rightarrow> FileNode \<Rightarrow> FileNode list \<Rightarrow> FileNode list" where
  "replaceFirst nm new [] = []"
| "replaceFirst nm new (n # ns) = (if fnName n = nm then new # ns else n # replaceFirst nm new ns)"

text \<open>
  The inner \<^verbatim>\<open>parts.forEach\<close> (lines 31 to 51) for one file, from the level the walk
  stands on. The walk steps into the children of the node it found or made only when the
  segment is not the last one and the node has a children array; otherwise it stays on
  the same level.
\<close>

fun insertParts :: "string \<Rightarrow> string \<Rightarrow> string list \<Rightarrow> FileNode list \<Rightarrow> FileNode list" where
  "insertParts fileContent currentPath [] currentLevel = currentLevel"
| "insertParts fileContent currentPath (part # rest) currentLevel =
     (let newPath = extendPath currentPath part;
          isFile = (rest = [])
      in case find (\<lambda>n. fnName n = part) currentLevel of
           None \<Rightarrow>
             if isFile then currentLevel @ [FileNode part newPath FileT None (Some fileContent)]
             else currentLevel @
                    [FileNode part newPath DirectoryT
                       (Some (insertParts fileContent newPath rest [])) None]
         | Some existingNode \<Rightarrow>
             (case fnChildren existingNode of
                Some kids \<Rightarrow>
                  if \<not> isFile
                  then replaceFirst part
                         (FileNode (fnName existingNode) (fnPath existingNode) (fnType existingNode)
                            (Some (insertParts fileContent newPath rest kids))
                            (fnContent existingNode))
                         currentLevel
                  else insertParts fileContent newPath rest currentLevel
              | None \<Rightarrow> insertParts fileContent newPath rest currentLevel))"

text \<open>
  The comparator of line 55. \<^verbatim>\<open>localeCompare\<close> depends on the locale of the host and
  is a parameter \<open>lc\<close>; \<open>nodeLe\<close> says that the comparator does not put \<open>a\<close> after \<open>b\<close>.
\<close>

definition compareNodes :: "(string \<Rightarrow> string \<Rightarrow> int) \<Rightarrow> FileNode \<Rightarrow> FileNode \<Rightarrow> int" where
  "compareNodes lc a b =
     (if fnType a = fnType b then lc (fnName a) (fnName b)
      else if fnType a = DirectoryT then -1 else 1)"

definition nodeLe :: "(string \<Rightarrow> string \<Rightarrow> int) \<Rightarrow> FileNode \<Rightarrow> FileNode \<Rightarrow> bool" where
  "nodeLe lc a b \<longleftrightarrow> compareNodes lc a b \<le> 0"

text \<open>
  \<^verbatim>\<open>Array.prototype.sort\<close> is stable, and for a consistent comparator the stable sorted
  order is unique: insertion from the right computes it.
\<close>

fun insertBy :: "('a \<Rightarrow> 'a \<Rightarrow> bool) \<Rightarrow> 'a \<Rightarrow> 'a list \<Rightarrow> 'a list" where
  "insertBy le x [] = [x]"
| "insertBy le x (y # ys) = (if le x y then x # y # ys else y # insertBy le x ys)"

definition sortBy :: "('a \<Rightarrow> 'a \<Rightarrow> bool) \<Rightarrow> 'a list \<Rightarrow> 'a list" where
  "sortBy le xs = foldr (insertBy le) xs []"

lemma set_insertBy: "set (insertBy le x xs) = insert x (set xs)"
  by (induction xs) auto

lemma set_sortBy: "set (sortBy le xs) = set xs"
  by (induction xs) (simp_all add: sortBy_def set_insertBy)

lemma children_size:
  "n \<in> set ns \<Longrightarrow> fnChildren n = Some kids \<Longrightarrow> size_list size kids < size_list size ns"
proof (induction ns)
  case Nil
  then show ?case by simp
next
  case (Cons a ns)
  then show ?case by (cases n) (auto simp: less_Suc_eq)
qed

text \<open>\<^verbatim>\<open>sortNodes\<close> (lines 54 to 62): sort the level, then the children of each node.\<close>

function sortNodes :: "(string \<Rightarrow> string \<Rightarrow> int) \<Rightarrow> FileNode list \<Rightarrow> FileNode list" where
  "sortNodes lc ns =
     map (\<lambda>n. case fnChildren n of
                None \<Rightarrow> n
              | Some kids \<Rightarrow>
                  FileNode (fnName n) (fnPath n) (fnType n) (Some (sortNodes lc kids)) (fnContent n))
         (sortBy (nodeLe lc) ns)"
  by pat_completeness auto
termination
proof (relation "measure (\<lambda>(lc, ns). size_list size ns)")
  show "wf (measure (\<lambda>(lc, ns). size_list size ns))" by simp
next
  fix lc :: "string \<Rightarrow> string \<Rightarrow> int" and ns :: "FileNode list" and n kids
  assume "n \<in> set (sortBy (nodeLe lc) ns)" "fnChildren n = Some kids"
  then show "((lc, kids), (lc, ns)) \<in> measure (\<lambda>(lc, ns). size_list size ns)"
    by (simp add: set_sortBy children_size)
qed

declare sortNodes.simps [simp del]

definition buildFileTree :: "(string \<Rightarrow> string \<Rightarrow> int) \<Rightarrow> ProjectFile list \<Rightarrow> FileNode list" where
  "buildFileTree lc fs =
     sortNodes lc (foldl (\<lambda>root file. insertParts (content file) [] (pathParts (path file)) root) [] fs)"

text \<open>An instance of the name order to compute with: code units, left to right.\<close>

fun codeUnitCompare :: "string \<Rightarrow> string \<Rightarrow> int" where
  "codeUnitCompare [] [] = 0"
| "codeUnitCompare [] (b # bs) = -1"
| "codeUnitCompare (a # as) [] = 1"
| "codeUnitCompare (a # as) (b # bs) =
     (if (of_char a :: nat) < of_char b then -1
      else if (of_char b :: nat) < of_char a then 1
      else codeUnitCompare as bs)"

text \<open>
  The order a level must have: the directories first, then the files, each group in the
  order of the names; and the same for the children of every node, all the way down.
\<close>

definition nameLe :: "(string \<Rightarrow> string \<Rightarrow> int) \<Rightarrow> FileNode \<Rightarrow> FileNode \<Rightarrow> bool" where
  "nameLe lc a b \<longleftrightarrow> lc (fnName a) (fnName b) \<le> 0"

definition levelOrdered :: "(string \<Rightarrow> string \<Rightarrow> int) \<Rightarrow> FileNode list \<Rightarrow> bool" where
  "levelOrdered lc ns \<longleftrightarrow>
     ns = filter (\<lambda>n. fnType n = DirectoryT) ns @ filter (\<lambda>n. fnType n = FileT) ns \<and>
     sorted_wrt (nameLe lc) (filter (\<lambda>n. fnType n = DirectoryT) ns) \<and>
     sorted_wrt (nameLe lc) (filter (\<lambda>n. fnType n = FileT) ns)"

fun nodeOrdered :: "(string \<Rightarrow> string \<Rightarrow> int) \<Rightarrow> FileNode \<Rightarrow> bool" where
  "nodeOrdered lc (FileNode nm p t ch c) =
     (case ch of
        None \<Rightarrow> True
      | Some kids \<Rightarrow> levelOrdered lc kids \<and> list_all (nodeOrdered lc) kids)"

definition treeOrdered :: "(string \<Rightarrow> string \<Rightarrow> int) \<Rightarrow> FileNode list \<Rightarrow> bool" where
  "treeOrdered lc ns \<longleftrightarrow> levelOrdered lc ns \<and> list_all (nodeOrdered lc) ns"

subsection \<open>Facts about sorting\<close>

lemma sorted_insertBy:
  assumes total: "\<And>a b. le a b \<or> le b a" and trans: "\<And>a b c. le a b \<Longrightarrow> le b c \<Longrightarrow> le a c"
  shows "sorted_wrt le xs \<Longrightarrow> sorted_wrt le (insertBy le x xs)"
proof (induction xs)
  case Nil
  then show ?case by simp
next
  case (Cons y ys)
  show ?case
  proof (cases "le x y")
    case True
    with Cons.prems trans show ?thesis by auto
  next
    case False
    with total have "le y x" by blast
    with Cons False show ?thesis by (auto simp: set_insertBy)
  qed
qed

lemma sorted_sortBy:
  assumes "\<And>a b. le a b \<or> le b a" and "\<And>a b c. le a b \<Longrightarrow> le b c \<Longrightarrow> le a c"
  shows "sorted_wrt le (sortBy le xs)"
proof (induction xs)
  case Nil
  show ?case by (simp add: sortBy_def)
next
  case (Cons x xs)
  have "sortBy le (x # xs) = insertBy le x (sortBy le xs)" by (simp add: sortBy_def)
  with Cons sorted_insertBy[of le, OF assms] show ?case by simp
qed

lemma nodeLe_total:
  assumes "\<forall>a b. lc a b \<le> 0 \<or> lc b a \<le> 0"
  shows "nodeLe lc a b \<or> nodeLe lc b a"
  using assms by (cases "fnType a"; cases "fnType b") (auto simp: nodeLe_def compareNodes_def)

lemma nodeLe_trans:
  assumes tr: "\<forall>a b c. lc a b \<le> 0 \<and> lc b c \<le> 0 \<longrightarrow> lc a c \<le> 0"
    and ab: "nodeLe lc a b" and bc: "nodeLe lc b c"
  shows "nodeLe lc a c"
proof (cases "fnType a = fnType b")
  case same_ab: True
  show ?thesis
  proof (cases "fnType b = fnType c")
    case True
    from ab same_ab have 1: "lc (fnName a) (fnName b) \<le> 0" by (simp add: nodeLe_def compareNodes_def)
    from bc True have 2: "lc (fnName b) (fnName c) \<le> 0" by (simp add: nodeLe_def compareNodes_def)
    from tr 1 2 have "lc (fnName a) (fnName c) \<le> 0" by blast
    with same_ab True show ?thesis by (simp add: nodeLe_def compareNodes_def)
  next
    case False
    with bc have "fnType b = DirectoryT" by (simp add: nodeLe_def compareNodes_def split: if_splits)
    with same_ab False show ?thesis by (simp add: nodeLe_def compareNodes_def)
  qed
next
  case False
  with ab have a: "fnType a = DirectoryT" by (simp add: nodeLe_def compareNodes_def split: if_splits)
  with False have b: "fnType b = FileT" by (cases "fnType b") auto
  with bc have "fnType c = FileT"
    by (cases "fnType c") (simp_all add: nodeLe_def compareNodes_def)
  with a show ?thesis by (simp add: nodeLe_def compareNodes_def)
qed

lemma sorted_level:
  assumes "sorted_wrt (nodeLe lc) ns"
  shows "levelOrdered lc ns"
proof -
  let ?D = "\<lambda>n. fnType n = DirectoryT" and ?F = "\<lambda>n. fnType n = FileT"
  have nd: "\<not> ?D n \<longleftrightarrow> ?F n" for n by (cases "fnType n") auto
  from assms have split: "ns = filter ?D ns @ filter ?F ns"
  proof (induction ns)
    case Nil
    then show ?case by simp
  next
    case (Cons n ns)
    then have ih: "ns = filter ?D ns @ filter ?F ns" by simp
    show ?case
    proof (cases "fnType n")
      case DirectoryT
      with ih show ?thesis by simp
    next
      case FileT
      have "\<forall>m \<in> set ns. fnType m = FileT"
      proof
        fix m assume "m \<in> set ns"
        with Cons.prems have "nodeLe lc n m" by simp
        with FileT show "fnType m = FileT"
          by (cases "fnType m") (auto simp: nodeLe_def compareNodes_def)
      qed
      then have "filter ?D ns = []" "filter ?F ns = ns" by (auto simp: filter_empty_conv filter_id_conv)
      with FileT show ?thesis by simp
    qed
  qed
  have "sorted_wrt (nodeLe lc) (filter ?D ns)" using assms by (rule sorted_wrt_filter)
  then have d: "sorted_wrt (nameLe lc) (filter ?D ns)"
    by (rule sorted_wrt_mono_rel[rotated]) (auto simp: nodeLe_def compareNodes_def nameLe_def)
  have "sorted_wrt (nodeLe lc) (filter ?F ns)" using assms by (rule sorted_wrt_filter)
  then have f: "sorted_wrt (nameLe lc) (filter ?F ns)"
    by (rule sorted_wrt_mono_rel[rotated]) (auto simp: nodeLe_def compareNodes_def nameLe_def)
  from split d f show ?thesis unfolding levelOrdered_def by blast
qed

definition sortChildren :: "(string \<Rightarrow> string \<Rightarrow> int) \<Rightarrow> FileNode \<Rightarrow> FileNode" where
  "sortChildren lc n =
     (case fnChildren n of
        None \<Rightarrow> n
      | Some kids \<Rightarrow>
          FileNode (fnName n) (fnPath n) (fnType n) (Some (sortNodes lc kids)) (fnContent n))"

lemma sortNodes_unfold: "sortNodes lc ns = map (sortChildren lc) (sortBy (nodeLe lc) ns)"
  by (subst sortNodes.simps) (simp add: sortChildren_def)

lemma sortChildren_keeps [simp]:
  "fnName (sortChildren lc n) = fnName n"
  "fnType (sortChildren lc n) = fnType n"
  "fnPath (sortChildren lc n) = fnPath n"
  by (simp_all add: sortChildren_def split: option.splits)

lemma nodeLe_sortChildren: "nodeLe lc (sortChildren lc' a) (sortChildren lc' b) = nodeLe lc a b"
  by (simp add: nodeLe_def compareNodes_def)

lemma sortNodes_ordered:
  "\<forall>a b. lc a b \<le> 0 \<or> lc b a \<le> 0 \<Longrightarrow>
   \<forall>a b c. lc a b \<le> 0 \<and> lc b c \<le> 0 \<longrightarrow> lc a c \<le> 0 \<Longrightarrow>
   treeOrdered lc (sortNodes lc ns)"
proof (induction lc ns rule: sortNodes.induct)
  case (1 lc ns)
  note total = "1.prems"(1) and trans = "1.prems"(2)
  let ?xs = "sortBy (nodeLe lc) ns"
  have "sorted_wrt (nodeLe lc) ?xs"
  proof (rule sorted_sortBy)
    fix a b show "nodeLe lc a b \<or> nodeLe lc b a" using total by (rule nodeLe_total)
  next
    fix a b c assume "nodeLe lc a b" "nodeLe lc b c"
    with trans show "nodeLe lc a c" by (rule nodeLe_trans)
  qed
  then have "sorted_wrt (nodeLe lc) (map (sortChildren lc) ?xs)"
    by (simp add: sorted_wrt_map nodeLe_sortChildren)
  then have level: "levelOrdered lc (map (sortChildren lc) ?xs)" by (rule sorted_level)
  have "nodeOrdered lc (sortChildren lc n)" if n: "n \<in> set ?xs" for n
  proof (cases "fnChildren n")
    case None
    then show ?thesis by (cases n) (simp add: sortChildren_def)
  next
    case (Some kids)
    from "1.IH"[OF n Some total trans] have "treeOrdered lc (sortNodes lc kids)" .
    with Some show ?thesis by (simp add: sortChildren_def treeOrdered_def)
  qed
  then have "list_all (nodeOrdered lc) (map (sortChildren lc) ?xs)"
    by (simp add: list_all_iff)
  with level show ?case by (simp add: treeOrdered_def sortNodes_unfold)
qed

text \<open>The code-unit order is a total preorder.\<close>

lemma codeUnitCompare_total: "codeUnitCompare a b \<le> 0 \<or> codeUnitCompare b a \<le> 0"
  by (induction a b rule: codeUnitCompare.induct) auto

lemma codeUnitCompare_trans:
  "codeUnitCompare a b \<le> 0 \<Longrightarrow> codeUnitCompare b c \<le> 0 \<Longrightarrow> codeUnitCompare a c \<le> 0"
proof (induction a b arbitrary: c rule: codeUnitCompare.induct)
  case 1
  then show ?case by simp
next
  case (2 b bs)
  then show ?case by (cases c) auto
next
  case (3 a as)
  then show ?case by simp
next
  case (4 a as b bs)
  show ?case
  proof (cases c)
    case Nil
    with "4.prems" show ?thesis by simp
  next
    case (Cons x xs)
    with "4.prems" "4.IH"[of xs] show ?thesis by (auto split: if_splits)
  qed
qed

text \<open>
  A name order of the kind \<^verbatim>\<open>localeCompare\<close> gives where letter case is concerned:
  names are compared without regard to case first, and of two names that differ only in
  case the one with the lower-case letter comes first. It is not the order of the code
  units, in which every capital precedes every lower-case letter.
\<close>

definition lowerFirstCompare :: "string \<Rightarrow> string \<Rightarrow> int" where
  "lowerFirstCompare a b =
     (if codeUnitCompare (toLowerCase a) (toLowerCase b) \<noteq> 0
      then codeUnitCompare (toLowerCase a) (toLowerCase b)
      else codeUnitCompare b a)"

lemma codeUnitCompare_eq0: "codeUnitCompare a b = 0 \<longleftrightarrow> a = b"
  by (induction a b rule: codeUnitCompare.induct) auto

lemma codeUnitCompare_flip: "codeUnitCompare b a = - codeUnitCompare a b"
  by (induction a b rule: codeUnitCompare.induct) auto

lemma codeUnitCompare_strict:
  assumes "codeUnitCompare a b < 0" and "codeUnitCompare b c \<le> 0"
  shows "codeUnitCompare a c < 0"
proof -
  from assms have le: "codeUnitCompare a c \<le> 0" by (intro codeUnitCompare_trans[of a b c]) simp_all
  have "codeUnitCompare a c \<noteq> 0"
  proof
    assume "codeUnitCompare a c = 0"
    then have "a = c" by (simp add: codeUnitCompare_eq0)
    with assms(2) have "codeUnitCompare b a \<le> 0" by simp
    with assms(1) codeUnitCompare_flip[of b a] show False by simp
  qed
  with le show ?thesis by simp
qed

lemma codeUnitCompare_strict2:
  assumes "codeUnitCompare a b \<le> 0" and "codeUnitCompare b c < 0"
  shows "codeUnitCompare a c < 0"
proof -
  from assms have le: "codeUnitCompare a c \<le> 0" by (intro codeUnitCompare_trans[of a b c]) simp_all
  have "codeUnitCompare a c \<noteq> 0"
  proof
    assume "codeUnitCompare a c = 0"
    then have "a = c" by (simp add: codeUnitCompare_eq0)
    with assms(1) have "codeUnitCompare c b \<le> 0" by simp
    with assms(2) codeUnitCompare_flip[of c b] show False by simp
  qed
  with le show ?thesis by simp
qed

lemma lowerFirstCompare_le:
  "lowerFirstCompare a b \<le> 0 \<longleftrightarrow>
     codeUnitCompare (toLowerCase a) (toLowerCase b) < 0 \<or>
     (toLowerCase a = toLowerCase b \<and> codeUnitCompare b a \<le> 0)"
  by (auto simp: lowerFirstCompare_def codeUnitCompare_eq0 less_le)

lemma lowerFirstCompare_total: "lowerFirstCompare a b \<le> 0 \<or> lowerFirstCompare b a \<le> 0"
proof (cases "toLowerCase a = toLowerCase b")
  case True
  with codeUnitCompare_total[of a b] show ?thesis by (auto simp: lowerFirstCompare_le)
next
  case False
  then have "codeUnitCompare (toLowerCase a) (toLowerCase b) \<noteq> 0" by (simp add: codeUnitCompare_eq0)
  with codeUnitCompare_flip[of "toLowerCase b" "toLowerCase a"] show ?thesis
    by (auto simp: lowerFirstCompare_le)
qed

lemma lowerFirstCompare_trans:
  assumes "lowerFirstCompare a b \<le> 0" and "lowerFirstCompare b c \<le> 0"
  shows "lowerFirstCompare a c \<le> 0"
proof -
  let ?la = "toLowerCase a" and ?lb = "toLowerCase b" and ?lc = "toLowerCase c"
  from assms(1) consider (s1) "codeUnitCompare ?la ?lb < 0" | (e1) "?la = ?lb" "codeUnitCompare b a \<le> 0"
    by (auto simp: lowerFirstCompare_le)
  then show ?thesis
  proof cases
    case s1
    from assms(2) have "codeUnitCompare ?lb ?lc \<le> 0"
      by (auto simp: lowerFirstCompare_le codeUnitCompare_eq0[THEN iffD2])
    with s1 have "codeUnitCompare ?la ?lc < 0" by (rule codeUnitCompare_strict)
    then show ?thesis by (simp add: lowerFirstCompare_le)
  next
    case e1
    from assms(2) consider (s2) "codeUnitCompare ?lb ?lc < 0" | (e2) "?lb = ?lc" "codeUnitCompare c b \<le> 0"
      by (auto simp: lowerFirstCompare_le)
    then show ?thesis
    proof cases
      case s2
      with e1 show ?thesis by (simp add: lowerFirstCompare_le)
    next
      case e2
      from e2(2) e1(2) have "codeUnitCompare c a \<le> 0" by (rule codeUnitCompare_trans)
      with e1 e2 show ?thesis by (simp add: lowerFirstCompare_le)
    qed
  qed
qed

section \<open>Claims about the tree\<close>

text \<open>
  C6 (as amended). Whatever the store, the built tree has on every level, from the root
  down, all directories before all files, and each of the two groups in the order of the
  comparator \<^verbatim>\<open>a.name.localeCompare(b.name)\<close>: for every name order \<open>lc\<close> that is a
  total preorder, each group is sorted by \<open>lc\<close>. That order is the collation of the host,
  not the lexicographic order of the code units.
\<close>

theorem c6_tree_sorted_dirs_first:
  assumes "\<forall>a b. lc a b \<le> 0 \<or> lc b a \<le> 0"
    and "\<forall>a b c. lc a b \<le> 0 \<and> lc b c \<le> 0 \<longrightarrow> lc a c \<le> 0"
  shows "treeOrdered lc (buildFileTree lc fs)"
  unfolding buildFileTree_def using assms by (rule sortNodes_ordered)

text \<open>
  Files in two directories and one at the root, under the order that puts a lower-case
  letter before its capital.
\<close>

theorem c6_tree_sorted_witness:
  "treeOrdered lowerFirstCompare
     (buildFileTree lowerFirstCompare
        [\<lparr>path = ''z.ts'', content = ''1'', language = ''javascript''\<rparr>,
         \<lparr>path = ''src/B.ts'', content = ''2'', language = ''javascript''\<rparr>,
         \<lparr>path = ''src/lib/c.ts'', content = ''3'', language = ''javascript''\<rparr>,
         \<lparr>path = ''src/b.ts'', content = ''4'', language = ''javascript''\<rparr>]) \<and>
   map fnName (buildFileTree lowerFirstCompare
        [\<lparr>path = ''z.ts'', content = ''1'', language = ''javascript''\<rparr>,
         \<lparr>path = ''src/B.ts'', content = ''2'', language = ''javascript''\<rparr>,
         \<lparr>path = ''src/lib/c.ts'', content = ''3'', language = ''javascript''\<rparr>,
         \<lparr>path = ''src/b.ts'', content = ''4'', language = ''javascript''\<rparr>]) = [''src'', ''z.ts''] \<and>
   map_option (map fnName) (fnChildren (hd (buildFileTree lowerFirstCompare
        [\<lparr>path = ''z.ts'', content = ''1'', language = ''javascript''\<rparr>,
         \<lparr>path = ''src/B.ts'', content = ''2'', language = ''javascript''\<rparr>,
         \<lparr>path = ''src/lib/c.ts'', content = ''3'', language = ''javascript''\<rparr>,
         \<lparr>path = ''src/b.ts'', content = ''4'', language = ''javascript''\<rparr>]))) = Some [''lib'', ''b.ts'', ''B.ts'']"
proof -
  have t: "\<forall>a b. lowerFirstCompare a b \<le> 0 \<or> lowerFirstCompare b a \<le> 0"
    using lowerFirstCompare_total by blast
  have r: "\<forall>a b c. lowerFirstCompare a b \<le> 0 \<and> lowerFirstCompare b c \<le> 0 \<longrightarrow>
             lowerFirstCompare a c \<le> 0"
    using lowerFirstCompare_trans by blast
  have n: "map fnName (buildFileTree lowerFirstCompare
        [\<lparr>path = ''z.ts'', content = ''1'', language = ''javascript''\<rparr>,
         \<lparr>path = ''src/B.ts'', content = ''2'', language = ''javascript''\<rparr>,
         \<lparr>path = ''src/lib/c.ts'', content = ''3'', language = ''javascript''\<rparr>,
         \<lparr>path = ''src/b.ts'', content = ''4'', language = ''javascript''\<rparr>]) = [''src'', ''z.ts'']"
    "map_option (map fnName) (fnChildren (hd (buildFileTree lowerFirstCompare
        [\<lparr>path = ''z.ts'', content = ''1'', language = ''javascript''\<rparr>,
         \<lparr>path = ''src/B.ts'', content = ''2'', language = ''javascript''\<rparr>,
         \<lparr>path = ''src/lib/c.ts'', content = ''3'', language = ''javascript''\<rparr>,
         \<lparr>path = ''src/b.ts'', content = ''4'', language = ''javascript''\<rparr>]))) = Some [''lib'', ''b.ts'', ''B.ts'']"
    by code_simp+
  from c6_tree_sorted_dirs_first[OF t r] n show ?thesis by simp
qed

text \<open>
  C6 as stated fails: under a name order that puts \<open>b.ts\<close> before \<open>B.ts\<close>, as the
  collation of a host does, the files stand in that order, and this is not the
  lexicographic order of their names, in which \<open>B.ts\<close> comes first.
\<close>

theorem c6_counterexample:
  "map fnName (buildFileTree lowerFirstCompare
      [\<lparr>path = ''B.ts'', content = ''1'', language = ''javascript''\<rparr>,
       \<lparr>path = ''b.ts'', content = ''2'', language = ''javascript''\<rparr>]) = [''b.ts'', ''B.ts''] \<and>
   codeUnitCompare ''b.ts'' ''B.ts'' = 1 \<and>
   \<not> treeOrdered codeUnitCompare (buildFileTree lowerFirstCompare
      [\<lparr>path = ''B.ts'', content = ''1'', language = ''javascript''\<rparr>,
       \<lparr>path = ''b.ts'', content = ''2'', language = ''javascript''\<rparr>])"
  by code_simp

text \<open>The paths of the file nodes of a tree, and the rule that siblings have different names.\<close>

fun nodeFilePaths :: "FileNode \<Rightarrow> string list" where
  "nodeFilePaths (FileNode nm p t ch c) =
     (if t = FileT then [p] else []) @
     (case ch of None \<Rightarrow> [] | Some kids \<Rightarrow> concat (map nodeFilePaths kids))"

definition treeFilePaths :: "FileNode list \<Rightarrow> string list" where
  "treeFilePaths ns = concat (map nodeFilePaths ns)"

fun nodeUnique :: "FileNode \<Rightarrow> bool" where
  "nodeUnique (FileNode nm p t ch c) =
     (case ch of
        None \<Rightarrow> True
      | Some kids \<Rightarrow> distinct (map fnName kids) \<and> list_all nodeUnique kids)"

definition siblingsUnique :: "FileNode list \<Rightarrow> bool" where
  "siblingsUnique ns \<longleftrightarrow> distinct (map fnName ns) \<and> list_all nodeUnique ns"

subsection \<open>Sibling names\<close>

lemma nodeUnique_children:
  "nodeUnique n \<Longrightarrow> fnChildren n = Some kids \<Longrightarrow> siblingsUnique kids"
  by (cases n) (simp add: siblingsUnique_def)

lemma find_name: "find (\<lambda>n. fnName n = nm) ns = Some ex \<Longrightarrow> ex \<in> set ns \<and> fnName ex = nm"
  by (induction ns) (auto split: if_splits)

lemma find_None_name: "find (\<lambda>n. fnName n = nm) ns = None \<Longrightarrow> nm \<notin> fnName ` set ns"
  by (induction ns) (auto split: if_splits)

lemma replaceFirst_names: "fnName new = nm \<Longrightarrow> map fnName (replaceFirst nm new ns) = map fnName ns"
  by (induction ns) auto

lemma replaceFirst_set: "set (replaceFirst nm new ns) \<subseteq> insert new (set ns)"
  by (induction ns) auto

lemma insertParts_new_file:
  "find (\<lambda>n. fnName n = part) level = None \<Longrightarrow>
   insertParts c cur [part] level = level @ [FileNode part (extendPath cur part) FileT None (Some c)]"
  by (simp add: Let_def)

lemma insertParts_new_dir:
  "find (\<lambda>n. fnName n = part) level = None \<Longrightarrow> rest \<noteq> [] \<Longrightarrow>
   insertParts c cur (part # rest) level =
     level @ [FileNode part (extendPath cur part) DirectoryT
                (Some (insertParts c (extendPath cur part) rest [])) None]"
  by (simp add: Let_def)

lemma insertParts_descend:
  "find (\<lambda>n. fnName n = part) level = Some ex \<Longrightarrow> fnChildren ex = Some kids \<Longrightarrow> rest \<noteq> [] \<Longrightarrow>
   insertParts c cur (part # rest) level =
     replaceFirst part
       (FileNode (fnName ex) (fnPath ex) (fnType ex)
          (Some (insertParts c (extendPath cur part) rest kids)) (fnContent ex)) level"
  by (simp add: Let_def)

lemma insertParts_stay:
  "find (\<lambda>n. fnName n = part) level = Some ex \<Longrightarrow> fnChildren ex = None \<or> rest = [] \<Longrightarrow>
   insertParts c cur (part # rest) level = insertParts c (extendPath cur part) rest level"
  by (auto simp: Let_def split: option.splits)

declare insertParts.simps(2) [simp del]

lemma insertParts_unique:
  "siblingsUnique level \<Longrightarrow> siblingsUnique (insertParts c cur parts level)"
proof (induction parts arbitrary: cur level)
  case Nil
  then show ?case by simp
next
  case (Cons part rest)
  let ?np = "extendPath cur part"
  show ?case
  proof (cases "find (\<lambda>n. fnName n = part) level")
    case None
    then have fresh: "part \<notin> fnName ` set level" by (rule find_None_name)
    show ?thesis
    proof (cases "rest = []")
      case True
      with None fresh Cons.prems show ?thesis
        by (simp add: insertParts_new_file siblingsUnique_def)
    next
      case False
      have "siblingsUnique (insertParts c ?np rest [])"
        by (rule Cons.IH) (simp add: siblingsUnique_def)
      with False None fresh Cons.prems show ?thesis
        by (simp add: insertParts_new_dir siblingsUnique_def)
    qed
  next
    case (Some ex)
    from find_name[OF Some] have ex: "ex \<in> set level" "fnName ex = part" by simp_all
    show ?thesis
    proof (cases "fnChildren ex")
      case None
      with Some Cons.IH[OF Cons.prems] show ?thesis by (simp add: insertParts_stay)
    next
      case kids: (Some kids)
      show ?thesis
      proof (cases "rest = []")
        case True
        with Some Cons.prems show ?thesis by (simp add: insertParts_stay)
      next
        case False
        let ?new = "FileNode (fnName ex) (fnPath ex) (fnType ex)
                      (Some (insertParts c ?np rest kids)) (fnContent ex)"
        from Cons.prems ex(1) have "nodeUnique ex" by (simp add: siblingsUnique_def list_all_iff)
        then have "siblingsUnique kids" using kids by (rule nodeUnique_children)
        then have "siblingsUnique (insertParts c ?np rest kids)" by (rule Cons.IH)
        then have nu: "nodeUnique ?new" by (simp add: siblingsUnique_def)
        have names: "map fnName (replaceFirst part ?new level) = map fnName level"
          using ex(2) by (simp add: replaceFirst_names)
        have "list_all nodeUnique (replaceFirst part ?new level)"
          using replaceFirst_set[of part ?new level] nu Cons.prems
          by (auto simp: siblingsUnique_def list_all_iff)
        with names Cons.prems have "siblingsUnique (replaceFirst part ?new level)"
          by (simp add: siblingsUnique_def)
        with Some kids False show ?thesis by (simp add: insertParts_descend)
      qed
    qed
  qed
qed

lemma insertBy_distinct:
  "distinct (map f (insertBy le x xs)) \<longleftrightarrow> f x \<notin> f ` set xs \<and> distinct (map f xs)"
  by (induction xs) (auto simp: set_insertBy)

lemma sortBy_distinct: "distinct (map f (sortBy le xs)) \<longleftrightarrow> distinct (map f xs)"
proof (induction xs)
  case Nil
  show ?case by (simp add: sortBy_def)
next
  case (Cons x xs)
  have "sortBy le (x # xs) = insertBy le x (sortBy le xs)" by (simp add: sortBy_def)
  with Cons show ?case by (simp add: insertBy_distinct set_sortBy)
qed

lemma sortNodes_unique: "siblingsUnique ns \<Longrightarrow> siblingsUnique (sortNodes lc ns)"
proof (induction lc ns rule: sortNodes.induct)
  case (1 lc ns)
  let ?xs = "sortBy (nodeLe lc) ns"
  have names: "map fnName (map (sortChildren lc) ?xs) = map fnName ?xs" by simp
  have d: "distinct (map fnName (map (sortChildren lc) ?xs))"
    unfolding names using "1.prems" by (simp add: sortBy_distinct siblingsUnique_def)
  have "nodeUnique (sortChildren lc n)" if n: "n \<in> set ?xs" for n
  proof -
    from n "1.prems" have nu: "nodeUnique n" by (simp add: set_sortBy siblingsUnique_def list_all_iff)
    show ?thesis
    proof (cases "fnChildren n")
      case None
      with nu show ?thesis by (simp add: sortChildren_def)
    next
      case (Some kids)
      from nu Some have "siblingsUnique kids" by (rule nodeUnique_children)
      from "1.IH"[OF n Some this] Some show ?thesis
        by (simp add: sortChildren_def siblingsUnique_def)
    qed
  qed
  then have "list_all nodeUnique (map (sortChildren lc) ?xs)" by (simp add: list_all_iff)
  with d show ?case by (simp add: siblingsUnique_def sortNodes_unfold)
qed

lemma foldl_insert_unique:
  "siblingsUnique root \<Longrightarrow>
   siblingsUnique (foldl (\<lambda>root file. insertParts (content file) [] (pathParts (path file)) root) root fs)"
  by (induction fs arbitrary: root) (simp_all add: insertParts_unique)

lemma buildFileTree_unique: "siblingsUnique (buildFileTree lc fs)"
  unfolding buildFileTree_def
  by (rule sortNodes_unique, rule foldl_insert_unique) (simp add: siblingsUnique_def)

subsection \<open>Where the builder puts a file\<close>

text \<open>
  \<open>lookup\<close> follows a list of segments down the tree, at each level to the first node
  with that name, as the builder's own walk does.
\<close>

fun lookup :: "FileNode list \<Rightarrow> string list \<Rightarrow> FileNode option" where
  "lookup level [] = None"
| "lookup level (p # rest) =
     (case find (\<lambda>n. fnName n = p) level of
        None \<Rightarrow> None
      | Some n \<Rightarrow>
          if rest = [] then Some n
          else (case fnChildren n of None \<Rightarrow> None | Some kids \<Rightarrow> lookup kids rest))"

definition info :: "FileNode \<Rightarrow> string \<times> NodeType \<times> bool" where
  "info n = (fnPath n, fnType n, fnChildren n = None)"

definition admits :: "FileNode list \<Rightarrow> string list \<Rightarrow> bool" where
  "admits level P \<longleftrightarrow>
     (\<forall>L n. L \<noteq> [] \<and> strict_prefix L P \<and> lookup level L = Some n \<longrightarrow> fnChildren n \<noteq> None) \<and>
     (\<forall>n. lookup level P = Some n \<longrightarrow> fnChildren n = None)"

lemma find_snoc:
  "find Q (xs @ [x]) = (case find Q xs of None \<Rightarrow> if Q x then Some x else None | Some y \<Rightarrow> Some y)"
  by (induction xs) auto

lemma find_replaceFirst_other:
  "l \<noteq> nm \<Longrightarrow> fnName new = nm \<Longrightarrow>
   find (\<lambda>n. fnName n = l) (replaceFirst nm new ns) = find (\<lambda>n. fnName n = l) ns"
  by (induction ns) auto

lemma find_replaceFirst_same:
  "find (\<lambda>n. fnName n = nm) ns = Some ex \<Longrightarrow> fnName new = nm \<Longrightarrow>
   find (\<lambda>n. fnName n = nm) (replaceFirst nm new ns) = Some new"
  by (induction ns) (auto split: if_splits)

lemma lookup_other:
  assumes "find (\<lambda>n. fnName n = l) level' = find (\<lambda>n. fnName n = l) level"
  shows "lookup level' (l # L') = lookup level (l # L')"
  using assms by simp

lemma lookup_Nil: "lookup [] L = None"
  by (cases L) simp_all

lemma admits_Nil: "admits [] P"
  by (simp add: admits_def lookup_Nil)

lemma admits_children:
  assumes a: "admits level (part # rest)" and f: "find (\<lambda>n. fnName n = part) level = Some ex"
    and k: "fnChildren ex = Some kids" and r: "rest \<noteq> []"
  shows "admits kids rest"
proof -
  have lk: "lookup level (part # L) = lookup kids L" if "L \<noteq> []" for L
    using that f k by simp
  show ?thesis
    unfolding admits_def
  proof (intro conjI allI impI)
    fix L n assume h: "L \<noteq> [] \<and> strict_prefix L rest \<and> lookup kids L = Some n"
    then have "part # L \<noteq> [] \<and> strict_prefix (part # L) (part # rest) \<and> lookup level (part # L) = Some n"
      using lk[of L] by simp
    with a show "fnChildren n \<noteq> None" unfolding admits_def by blast
  next
    fix n assume "lookup kids rest = Some n"
    with lk[OF r] have "lookup level (part # rest) = Some n" by simp
    with a show "fnChildren n = None" unfolding admits_def by blast
  qed
qed

lemma admits_first_dir:
  assumes a: "admits level (part # rest)" and f: "find (\<lambda>n. fnName n = part) level = Some ex"
    and r: "rest \<noteq> []"
  shows "fnChildren ex \<noteq> None"
proof -
  have "[part] \<noteq> [] \<and> strict_prefix [part] (part # rest) \<and> lookup level [part] = Some ex"
    using f r by (simp add: strict_prefix_def)
  with a show ?thesis unfolding admits_def by blast
qed

lemma lookup_insertParts:
  "admits level P \<Longrightarrow> P \<noteq> [] \<Longrightarrow> L \<noteq> [] \<Longrightarrow>
   map_option info (lookup (insertParts c cur P level) L) =
     (if prefix L P \<and> lookup level L = None
      then Some (foldl extendPath cur L, if L = P then FileT else DirectoryT, L = P)
      else map_option info (lookup level L))"
proof (induction P arbitrary: cur level L)
  case Nil
  then show ?case by simp
next
  case (Cons part rest)
  obtain l L' where L: "L = l # L'" using Cons.prems(3) by (cases L) auto
  let ?np = "extendPath cur part"
  show ?case
  proof (cases "find (\<lambda>n. fnName n = part) level")
    case None
    show ?thesis
    proof (cases "rest = []")
      case True
      let ?new = "FileNode part ?np FileT None (Some c)"
      have T: "insertParts c cur (part # rest) level = level @ [?new]"
        using None True by (simp add: insertParts_new_file)
      show ?thesis
      proof (cases "l = part")
        case same: True
        have "find (\<lambda>n. fnName n = l) (level @ [?new]) = Some ?new"
          using None same by (simp add: find_snoc)
        with None same True show ?thesis unfolding T L by (simp add: info_def)
      next
        case False
        have "find (\<lambda>n. fnName n = l) (level @ [?new]) = find (\<lambda>n. fnName n = l) level"
          using False by (simp add: find_snoc split: option.splits)
        with False show ?thesis unfolding T L by simp
      qed
    next
      case False
      let ?K = "insertParts c ?np rest []"
      let ?new = "FileNode part ?np DirectoryT (Some ?K) None"
      have T: "insertParts c cur (part # rest) level = level @ [?new]"
        using None False by (simp add: insertParts_new_dir)
      show ?thesis
      proof (cases "l = part")
        case same: True
        have fnd: "find (\<lambda>n. fnName n = l) (level @ [?new]) = Some ?new"
          using None same by (simp add: find_snoc)
        show ?thesis
        proof (cases "L' = []")
          case True
          with fnd None same False show ?thesis unfolding T L by (simp add: info_def)
        next
          case nonempty: False
          from Cons.IH[where cur = ?np, OF admits_Nil False nonempty]
          have "map_option info (lookup ?K L') =
                  (if prefix L' rest then Some (foldl extendPath ?np L', if L' = rest then FileT else DirectoryT, L' = rest)
                   else None)" by (simp add: lookup_Nil)
          with fnd None same nonempty show ?thesis unfolding T L by simp
        qed
      next
        case False
        have "find (\<lambda>n. fnName n = l) (level @ [?new]) = find (\<lambda>n. fnName n = l) level"
          using False by (simp add: find_snoc split: option.splits)
        with False show ?thesis unfolding T L by simp
      qed
    qed
  next
    case (Some ex)
    show ?thesis
    proof (cases "rest = []")
      case True
      have T: "insertParts c cur (part # rest) level = level"
        using Some True by (simp add: insertParts_stay)
      have "\<not> (prefix L [part] \<and> lookup level L = None)"
        using Some L by (auto simp: prefix_Cons)
      with True show ?thesis unfolding T by simp
    next
      case False
      from admits_first_dir[OF Cons.prems(1) Some False] obtain kids where
        kids: "fnChildren ex = Some kids" by auto
      let ?K = "insertParts c ?np rest kids"
      let ?new = "FileNode (fnName ex) (fnPath ex) (fnType ex) (Some ?K) (fnContent ex)"
      have T: "insertParts c cur (part # rest) level = replaceFirst part ?new level"
        using Some kids False by (simp add: insertParts_descend)
      from find_name[OF Some] have nm: "fnName ?new = part" by simp
      show ?thesis
      proof (cases "l = part")
        case same: True
        have fnd: "find (\<lambda>n. fnName n = l) (replaceFirst part ?new level) = Some ?new"
          using find_replaceFirst_same[OF Some nm] same by simp
        show ?thesis
        proof (cases "L' = []")
          case True
          with fnd Some same kids show ?thesis unfolding T L by (simp add: info_def)
        next
          case nonempty: False
          from Cons.IH[where cur = ?np, OF admits_children[OF Cons.prems(1) Some kids False] False nonempty]
          have "map_option info (lookup ?K L') =
                  (if prefix L' rest \<and> lookup kids L' = None
                   then Some (foldl extendPath ?np L', if L' = rest then FileT else DirectoryT, L' = rest)
                   else map_option info (lookup kids L'))" .
          with fnd Some same kids nonempty show ?thesis unfolding T L by simp
        qed
      next
        case False
        have "find (\<lambda>n. fnName n = l) (replaceFirst part ?new level) = find (\<lambda>n. fnName n = l) level"
          using False nm by (simp add: find_replaceFirst_other)
        with False show ?thesis unfolding T L by simp
      qed
    qed
  qed
qed

text \<open>
  What the tree holds after the files with the segment lists \<open>S\<close> have gone in: every
  node the walk can reach carries the path of its segments; a node without children is a
  file node of a list in \<open>S\<close>; a node with children lies strictly above a list in \<open>S\<close>;
  and every list in \<open>S\<close> leads to a file node.
\<close>

definition placed :: "FileNode list \<Rightarrow> string list list \<Rightarrow> bool" where
  "placed T S \<longleftrightarrow>
     (\<forall>L n. lookup T L = Some n \<longrightarrow>
        fnPath n = foldl extendPath [] L \<and>
        (fnChildren n = None \<longrightarrow> fnType n = FileT \<and> L \<in> set S) \<and>
        (fnChildren n \<noteq> None \<longrightarrow> (\<exists>Q \<in> set S. strict_prefix L Q))) \<and>
     (\<forall>Q \<in> set S. \<exists>n. lookup T Q = Some n \<and> fnType n = FileT \<and> fnPath n = foldl extendPath [] Q)"

lemma placed_admits:
  assumes p: "placed T S" and free: "\<forall>Q \<in> set S. \<not> strict_prefix Q P \<and> \<not> strict_prefix P Q"
  shows "admits T P"
  unfolding admits_def
proof (intro conjI allI impI)
  fix L n assume h: "L \<noteq> [] \<and> strict_prefix L P \<and> lookup T L = Some n"
  show "fnChildren n \<noteq> None"
  proof
    assume "fnChildren n = None"
    with p h have "L \<in> set S" unfolding placed_def by blast
    with free h show False by blast
  qed
next
  fix n assume h: "lookup T P = Some n"
  show "fnChildren n = None"
  proof (rule ccontr)
    assume "fnChildren n \<noteq> None"
    with p h have "\<exists>Q \<in> set S. strict_prefix P Q" unfolding placed_def by blast
    with free show False by blast
  qed
qed

lemma lookup_nonempty: "lookup T L = Some n \<Longrightarrow> L \<noteq> []"
  by (cases L) auto

lemma placed_insert:
  assumes p: "placed T S" and ne: "P \<noteq> []"
    and free: "\<forall>Q \<in> set S. \<not> strict_prefix Q P \<and> \<not> strict_prefix P Q"
  shows "placed (insertParts c [] P T) (P # S)"
proof -
  let ?T' = "insertParts c [] P T"
  have adm: "admits T P" using p free by (rule placed_admits)
  note A = lookup_insertParts[OF adm ne, of _ c "[]"]
  have inv: "fnPath n = foldl extendPath [] L \<and>
        (fnChildren n = None \<longrightarrow> fnType n = FileT \<and> L \<in> set (P # S)) \<and>
        (fnChildren n \<noteq> None \<longrightarrow> (\<exists>Q \<in> set (P # S). strict_prefix L Q))"
    if l: "lookup ?T' L = Some n" for L n
  proof -
    from l have L: "L \<noteq> []" by (rule lookup_nonempty)
    show ?thesis
    proof (cases "prefix L P \<and> lookup T L = None")
      case True
      with A[OF L] l have i: "info n = (foldl extendPath [] L, if L = P then FileT else DirectoryT, L = P)"
        by simp
      from True have "L \<noteq> P \<Longrightarrow> strict_prefix L P" by (simp add: strict_prefix_def)
      with i show ?thesis by (auto simp: info_def split: if_splits)
    next
      case False
      with A[OF L] l obtain n0 where n0: "lookup T L = Some n0" "info n = info n0"
        by (cases "lookup T L") (auto split: if_splits)
      from p n0(1) have "fnPath n0 = foldl extendPath [] L \<and>
        (fnChildren n0 = None \<longrightarrow> fnType n0 = FileT \<and> L \<in> set S) \<and>
        (fnChildren n0 \<noteq> None \<longrightarrow> (\<exists>Q \<in> set S. strict_prefix L Q))"
        unfolding placed_def by blast
      with n0(2) show ?thesis by (auto simp: info_def)
    qed
  qed
  have has: "\<exists>n. lookup ?T' Q = Some n \<and> fnType n = FileT \<and> fnPath n = foldl extendPath [] Q"
    if q: "Q \<in> set (P # S)" for Q
  proof (cases "lookup T Q")
    case None
    with q p have QP: "Q = P" unfolding placed_def by auto
    with None A[OF ne] have "map_option info (lookup ?T' P) = Some (foldl extendPath [] P, FileT, True)"
      by simp
    then obtain n where "lookup ?T' P = Some n" "info n = (foldl extendPath [] P, FileT, True)"
      by (cases "lookup ?T' P") auto
    with QP show ?thesis by (auto simp: info_def)
  next
    case (Some n0)
    then have Q: "Q \<noteq> []" by (rule lookup_nonempty)
    from Some A[OF Q] obtain n where n: "lookup ?T' Q = Some n" "info n = info n0"
      by (cases "lookup ?T' Q") auto
    have "fnType n0 = FileT \<and> fnPath n0 = foldl extendPath [] Q"
    proof (cases "Q = P")
      case True
      with adm Some have "fnChildren n0 = None" unfolding admits_def by blast
      with p Some show ?thesis unfolding placed_def by blast
    next
      case False
      with q have "Q \<in> set S" by simp
      with p obtain m where "lookup T Q = Some m" "fnType m = FileT" "fnPath m = foldl extendPath [] Q"
        unfolding placed_def by blast
      with Some show ?thesis by simp
    qed
    with n show ?thesis by (auto simp: info_def)
  qed
  from inv has show ?thesis unfolding placed_def by blast
qed

lemma placed_foldl:
  assumes "placed T S"
    and "\<forall>f \<in> set fs. pathParts (path f) \<noteq> []"
    and "\<forall>P \<in> set S \<union> (\<lambda>f. pathParts (path f)) ` set fs.
         \<forall>Q \<in> set S \<union> (\<lambda>f. pathParts (path f)) ` set fs. \<not> strict_prefix P Q"
  shows "placed (foldl (\<lambda>root file. insertParts (content file) [] (pathParts (path file)) root) T fs)
                (rev (map (\<lambda>f. pathParts (path f)) fs) @ S)"
  using assms
proof (induction fs arbitrary: T S)
  case Nil
  then show ?case by simp
next
  case (Cons f fs)
  let ?P = "pathParts (path f)"
  have "placed (insertParts (content f) [] ?P T) (?P # S)"
  proof (rule placed_insert)
    show "placed T S" by (rule Cons.prems(1))
    show "?P \<noteq> []" using Cons.prems(2) by simp
    show "\<forall>Q \<in> set S. \<not> strict_prefix Q ?P \<and> \<not> strict_prefix ?P Q"
      using Cons.prems(3) by simp
  qed
  moreover have "\<forall>g \<in> set fs. pathParts (path g) \<noteq> []" using Cons.prems(2) by simp
  moreover have "\<forall>P \<in> set (?P # S) \<union> (\<lambda>f. pathParts (path f)) ` set fs.
         \<forall>Q \<in> set (?P # S) \<union> (\<lambda>f. pathParts (path f)) ` set fs. \<not> strict_prefix P Q"
    using Cons.prems(3) by simp
  ultimately have "placed (foldl (\<lambda>root file. insertParts (content file) [] (pathParts (path file)) root)
                      (insertParts (content f) [] ?P T) fs)
                (rev (map (\<lambda>f. pathParts (path f)) fs) @ ?P # S)"
    by (rule Cons.IH)
  then show ?case by simp
qed

lemma nodeFilePaths_self: "fnType n = FileT \<Longrightarrow> fnPath n \<in> set (nodeFilePaths n)"
  by (cases n) simp

lemma nodeFilePaths_children:
  "fnChildren n = Some kids \<Longrightarrow> set (treeFilePaths kids) \<subseteq> set (nodeFilePaths n)"
  by (cases n) (auto simp: treeFilePaths_def)

lemma treeFilePaths_member: "n \<in> set T \<Longrightarrow> set (nodeFilePaths n) \<subseteq> set (treeFilePaths T)"
  by (auto simp: treeFilePaths_def)

lemma lookup_file_path:
  "lookup T L = Some n \<Longrightarrow> fnType n = FileT \<Longrightarrow> fnPath n \<in> set (treeFilePaths T)"
proof (induction L arbitrary: T)
  case Nil
  then show ?case by simp
next
  case (Cons l L)
  from Cons.prems(1) obtain m where m: "find (\<lambda>n. fnName n = l) T = Some m"
    by (cases "find (\<lambda>n. fnName n = l) T") auto
  from find_name[OF m] have mT: "m \<in> set T" by simp
  show ?case
  proof (cases "L = []")
    case True
    with Cons.prems m have "n = m" by simp
    with Cons.prems(2) mT nodeFilePaths_self[of n] treeFilePaths_member[of n T] show ?thesis by blast
  next
    case False
    with Cons.prems(1) m obtain kids where k: "fnChildren m = Some kids" "lookup kids L = Some n"
      by (cases "fnChildren m") auto
    from Cons.IH[OF k(2) Cons.prems(2)] nodeFilePaths_children[OF k(1)] treeFilePaths_member[OF mT]
    show ?thesis by blast
  qed
qed

lemma sortNodes_filePaths: "set (treeFilePaths (sortNodes lc ns)) = set (treeFilePaths ns)"
proof (induction lc ns rule: sortNodes.induct)
  case (1 lc ns)
  have n: "set (nodeFilePaths (sortChildren lc n)) = set (nodeFilePaths n)"
    if "n \<in> set (sortBy (nodeLe lc) ns)" for n
  proof (cases "fnChildren n")
    case None
    then show ?thesis by (simp add: sortChildren_def)
  next
    case (Some kids)
    from "1.IH"[OF that Some] Some show ?thesis
      by (cases n) (simp add: sortChildren_def treeFilePaths_def)
  qed
  have "set (treeFilePaths (sortNodes lc ns)) =
          (\<Union>n \<in> set (sortBy (nodeLe lc) ns). set (nodeFilePaths (sortChildren lc n)))"
    by (simp add: sortNodes_unfold treeFilePaths_def)
  also have "\<dots> = (\<Union>n \<in> set (sortBy (nodeLe lc) ns). set (nodeFilePaths n))"
    using n by simp
  also have "\<dots> = set (treeFilePaths ns)" by (simp add: set_sortBy treeFilePaths_def)
  finally show ?case .
qed

text \<open>Joining the segments of a path gives the path back.\<close>

lemma splitOn_nonempty: "splitOn c s \<noteq> []"
  by (induction s) (auto split: list.splits)

lemma foldl_extendPath:
  "cur \<noteq> [] \<Longrightarrow> foldl extendPath cur ps = cur @ concat (map (\<lambda>p. CHR ''/'' # p) ps)"
  by (induction ps arbitrary: cur) (simp_all add: extendPath_def)

lemma splitOn_join:
  "splitOn CHR ''/'' s = p # ps \<Longrightarrow> p @ concat (map (\<lambda>p. CHR ''/'' # p) ps) = s"
proof (induction s arbitrary: p ps)
  case Nil
  then show ?case by simp
next
  case (Cons x s)
  obtain q qs where q: "splitOn CHR ''/'' s = q # qs"
    using splitOn_nonempty[of "CHR ''/''" s] by (cases "splitOn CHR ''/'' s") auto
  from Cons.IH[OF q] have ih: "q @ concat (map (\<lambda>p. CHR ''/'' # p) qs) = s" .
  show ?case
  proof (cases "x = CHR ''/''")
    case True
    with Cons.prems q have "p = []" "ps = q # qs" by simp_all
    with ih True show ?thesis by simp
  next
    case False
    with Cons.prems q have "p = x # q" "ps = qs" by simp_all
    with ih show ?thesis by simp
  qed
qed

lemma join_pathParts:
  assumes "[] \<notin> set (splitOn CHR ''/'' s)"
  shows "pathParts s \<noteq> [] \<and> foldl extendPath [] (pathParts s) = s"
proof -
  from assms have pp: "pathParts s = splitOn CHR ''/'' s"
    unfolding pathParts_def by (simp add: filter_id_conv) metis
  obtain p ps where sp: "splitOn CHR ''/'' s = p # ps"
    using splitOn_nonempty[of "CHR ''/''" s] by (cases "splitOn CHR ''/'' s") auto
  with assms have "p \<noteq> []" by auto
  then have "foldl extendPath [] (p # ps) = p @ concat (map (\<lambda>p. CHR ''/'' # p) ps)"
    by (simp add: extendPath_def foldl_extendPath)
  with splitOn_join[OF sp] pp sp show ?thesis by simp
qed

text \<open>
  A path made of non-empty segments (not empty, no slash at either end, no doubled
  slash), and a store in which no path's segments are a proper prefix of another's.
\<close>

definition segmentsNonEmpty :: "string \<Rightarrow> bool" where
  "segmentsNonEmpty p \<longleftrightarrow> list_all (\<lambda>s. s \<noteq> []) (splitOn CHR ''/'' p)"

definition prefixFree :: "string list list \<Rightarrow> bool" where
  "prefixFree S \<longleftrightarrow> list_all (\<lambda>P. list_all (\<lambda>Q. \<not> strict_prefix P Q) S) S"

text \<open>
  C5 (as amended). In the tree built from any store, no two siblings share a name, on any
  level. If every path of the store is made of non-empty segments and no path's segments
  are a proper prefix of another's, then for every artifact of the store the tree has a
  file node with exactly the artifact's path.
\<close>

theorem c5_siblings_unique_files_present:
  "siblingsUnique (buildFileTree lc fs) \<and>
   (list_all (\<lambda>f. segmentsNonEmpty (path f)) fs \<and> prefixFree (map (\<lambda>f. pathParts (path f)) fs) \<longrightarrow>
      set (map path fs) \<subseteq> set (treeFilePaths (buildFileTree lc fs)))"
proof (intro conjI impI)
  show "siblingsUnique (buildFileTree lc fs)" by (rule buildFileTree_unique)
next
  assume h: "list_all (\<lambda>f. segmentsNonEmpty (path f)) fs \<and> prefixFree (map (\<lambda>f. pathParts (path f)) fs)"
  let ?T = "foldl (\<lambda>root file. insertParts (content file) [] (pathParts (path file)) root) [] fs"
  let ?S = "map (\<lambda>f. pathParts (path f)) fs"
  have seg: "pathParts (path f) \<noteq> [] \<and> foldl extendPath [] (pathParts (path f)) = path f"
    if "f \<in> set fs" for f
  proof (rule join_pathParts)
    from h that have "segmentsNonEmpty (path f)" by (simp add: list_all_iff)
    then show "[] \<notin> set (splitOn CHR ''/'' (path f))"
      by (auto simp: segmentsNonEmpty_def list_all_iff)
  qed
  have "placed ?T (rev ?S @ [])"
  proof (rule placed_foldl)
    show "placed [] []" by (simp add: placed_def lookup_Nil)
    show "\<forall>f \<in> set fs. pathParts (path f) \<noteq> []" using seg by blast
    from h have "\<forall>P \<in> set ?S. \<forall>Q \<in> set ?S. \<not> strict_prefix P Q"
      by (simp add: prefixFree_def list_all_iff)
    then show "\<forall>P \<in> set [] \<union> (\<lambda>f. pathParts (path f)) ` set fs.
         \<forall>Q \<in> set [] \<union> (\<lambda>f. pathParts (path f)) ` set fs. \<not> strict_prefix P Q" by simp
  qed
  then have has: "\<forall>Q \<in> set ?S. \<exists>n. lookup ?T Q = Some n \<and> fnType n = FileT \<and>
                    fnPath n = foldl extendPath [] Q"
    by (simp add: placed_def)
  show "set (map path fs) \<subseteq> set (treeFilePaths (buildFileTree lc fs))"
  proof
    fix p assume "p \<in> set (map path fs)"
    then obtain f where f: "f \<in> set fs" "p = path f" by auto
    with has obtain n where n: "lookup ?T (pathParts (path f)) = Some n" "fnType n = FileT"
      "fnPath n = foldl extendPath [] (pathParts (path f))" by auto
    from lookup_file_path[OF n(1,2)] n(3) seg[OF f(1)] f(2)
    have "p \<in> set (treeFilePaths ?T)" by simp
    then show "p \<in> set (treeFilePaths (buildFileTree lc fs))"
      by (simp add: buildFileTree_def sortNodes_filePaths)
  qed
qed

text \<open>A store of three files in nested directories.\<close>

theorem c5_tree_witness:
  "siblingsUnique (buildFileTree codeUnitCompare
      [\<lparr>path = ''src/b.ts'', content = ''1'', language = ''javascript''\<rparr>,
       \<lparr>path = ''src/lib/c.ts'', content = ''2'', language = ''javascript''\<rparr>,
       \<lparr>path = ''a.md'', content = ''3'', language = ''text''\<rparr>]) \<and>
   set [''src/b.ts'', ''src/lib/c.ts'', ''a.md''] \<subseteq>
     set (treeFilePaths (buildFileTree codeUnitCompare
      [\<lparr>path = ''src/b.ts'', content = ''1'', language = ''javascript''\<rparr>,
       \<lparr>path = ''src/lib/c.ts'', content = ''2'', language = ''javascript''\<rparr>,
       \<lparr>path = ''a.md'', content = ''3'', language = ''text''\<rparr>]))"
proof -
  let ?fs = "[\<lparr>path = ''src/b.ts'', content = ''1'', language = ''javascript''\<rparr>,
       \<lparr>path = ''src/lib/c.ts'', content = ''2'', language = ''javascript''\<rparr>,
       \<lparr>path = ''a.md'', content = ''3'', language = ''text''\<rparr>]"
  have 1: "list_all (\<lambda>f. segmentsNonEmpty (path f)) ?fs" by code_simp
  have 2: "prefixFree (map (\<lambda>f. pathParts (path f)) ?fs)" by code_simp
  from c5_siblings_unique_files_present[of codeUnitCompare ?fs] 1 2 show ?thesis by simp
qed

text \<open>
  C5 as stated fails. After \<open>a/b\<close> the name \<open>a\<close> is a directory, and the file \<open>a\<close> gets
  no node. A leading slash is dropped, so the node of \<open>/a.ts\<close> has the path \<open>a.ts\<close>.
\<close>

theorem c5_counterexample:
  "treeFilePaths (buildFileTree codeUnitCompare
      [\<lparr>path = ''a/b'', content = ''1'', language = ''text''\<rparr>,
       \<lparr>path = ''a'', content = ''2'', language = ''text''\<rparr>]) = [''a/b''] \<and>
   treeFilePaths (buildFileTree codeUnitCompare
      [\<lparr>path = ''/a.ts'', content = ''1'', language = ''javascript''\<rparr>]) = [''a.ts'']"
  by code_simp

subsection \<open>A buffer that grows\<close>









section \<open>Claims about repeated extraction\<close>


section \<open>The language of a path that has an extension\<close>

text \<open>
  For a path with a dot the table is applied to the lowered text after the last dot.
\<close>

lemma splitOn_no_sep: "sep \<notin> set s \<Longrightarrow> splitOn sep s = [s]"
  by (induction s) auto

lemma splitOn_two: "sep \<in> set s \<Longrightarrow> 2 \<le> length (splitOn sep s)"
proof (induction s)
  case Nil
  then show ?case by simp
next
  case (Cons x s)
  show ?case
  proof (cases "x = sep")
    case True
    then show ?thesis using splitOn_nonempty[of sep s] by (cases "splitOn sep s") auto
  next
    case False
    with Cons show ?thesis by (auto split: list.splits)
  qed
qed

lemma splitOn_last_ext: "sep \<notin> set ext \<Longrightarrow> last (splitOn sep (base @ sep # ext)) = ext"
proof (induction base)
  case Nil
  then show ?case by (simp add: splitOn_no_sep)
next
  case (Cons x base)
  have "2 \<le> length (splitOn sep (base @ sep # ext))" by (rule splitOn_two) simp
  then obtain s t ss where "splitOn sep (base @ sep # ext) = s # t # ss"
    by (cases "splitOn sep (base @ sep # ext)"; cases "tl (splitOn sep (base @ sep # ext))") auto
  with Cons show ?case by auto
qed

lemma languageOf_extension:
  assumes "CHR ''.'' \<notin> set ext"
  shows "languageOf (base @ CHR ''.'' # ext) =
     (if toLowerCase ext \<in> set [''js'', ''jsx'', ''ts'', ''tsx''] then ''javascript''
      else if toLowerCase ext = ''html'' then ''html''
      else if toLowerCase ext = ''css'' then ''css''
      else if toLowerCase ext = ''json'' then ''json''
      else if toLowerCase ext = ''py'' then ''python''
      else ''text'')"
  using splitOn_last_ext[OF assms, of base]
  by (simp add: languageOf_def Let_def)

end
